theory Spec2Isabelle
  imports Complex_Main "HOL-Library.Multiset"
begin

section \<open>Strings\<close>

text \<open>
  A JavaScript string is a sequence of UTF-16 code units. A code unit is modelled as a
  natural number, a string as the list of its code units. \<open>str\<close> turns an Isabelle
  literal (ASCII) into such a string. \<open>null\<close>/\<open>undefined\<close> is \<open>None\<close> of an
  option type; \<open>truthy\<close> is JavaScript's truthiness of a string-or-null value: the
  empty string is falsy, like \<open>null\<close>.
\<close>

type_synonym jsstring = "nat list"

definition str :: "string \<Rightarrow> jsstring" where
  "str s = map of_char s"

definition truthy :: "jsstring option \<Rightarrow> bool" where
  "truthy v = (case v of None \<Rightarrow> False | Some s \<Rightarrow> s \<noteq> [])"

text \<open>The regular-expression class \<open>\s\<close> (WhiteSpace and LineTerminator of ECMAScript).\<close>

definition isWhiteSpace :: "nat \<Rightarrow> bool" where
  "isWhiteSpace c \<longleftrightarrow>
     c = 9 \<or> c = 10 \<or> c = 11 \<or> c = 12 \<or> c = 13 \<or> c = 32 \<or> c = 160 \<or> c = 5760 \<or>
     (8192 \<le> c \<and> c \<le> 8202) \<or> c = 8232 \<or> c = 8233 \<or> c = 8239 \<or> c = 8287 \<or>
     c = 12288 \<or> c = 65279"

text \<open>The class \<open>[a-zA-Z]\<close>.\<close>

definition isAsciiLetter :: "nat \<Rightarrow> bool" where
  "isAsciiLetter c \<longleftrightarrow> (65 \<le> c \<and> c \<le> 90) \<or> (97 \<le> c \<and> c \<le> 122)"

text \<open>The class \<open>\d\<close>, that is \<open>[0-9]\<close>.\<close>

definition isDigit :: "nat \<Rightarrow> bool" where
  "isDigit c \<longleftrightarrow> 48 \<le> c \<and> c \<le> 57"

text \<open>
  \<open>s.split(/\s+/)\<close>: the pieces between the maximal runs of white space. A run at the
  start or at the end of the string leaves an empty piece there, and the empty string
  gives one empty piece.
\<close>

function split_ws :: "jsstring \<Rightarrow> jsstring list" where
  "split_ws s =
     (if dropWhile (\<lambda>c. \<not> isWhiteSpace c) s = [] then [s]
      else takeWhile (\<lambda>c. \<not> isWhiteSpace c) s
           # split_ws (dropWhile isWhiteSpace (dropWhile (\<lambda>c. \<not> isWhiteSpace c) s)))"
  by pat_completeness auto
termination
proof (relation "measure length")
  show "wf (measure length)" by simp
next
  fix s :: jsstring
  assume a: "dropWhile (\<lambda>c. \<not> isWhiteSpace c) s \<noteq> []"
  then obtain c rest where r: "dropWhile (\<lambda>c. \<not> isWhiteSpace c) s = c # rest"
    by (cases "dropWhile (\<lambda>c. \<not> isWhiteSpace c) s") auto
  have "isWhiteSpace (hd (dropWhile (\<lambda>c. \<not> isWhiteSpace c) s))"
    using a hd_dropWhile [of "\<lambda>c. \<not> isWhiteSpace c" s] by simp
  then have c: "isWhiteSpace c" using r by simp
  have "length (dropWhile isWhiteSpace rest) \<le> length rest"
    by (rule length_dropWhile_le)
  moreover have "length (c # rest) \<le> length s"
    unfolding r [symmetric] by (rule length_dropWhile_le)
  ultimately show
    "(dropWhile isWhiteSpace (dropWhile (\<lambda>c. \<not> isWhiteSpace c) s), s) \<in> measure length"
    using r c by simp
qed

declare split_ws.simps [simp del]

text \<open>\<open>parts.join(sep)\<close>.\<close>

fun join :: "jsstring \<Rightarrow> jsstring list \<Rightarrow> jsstring" where
  "join sep [] = []"
| "join sep [x] = x"
| "join sep (x # y # ys) = x @ sep @ join sep (y # ys)"

text \<open>\<open>s.trim()\<close>: white space and line terminators removed at both ends.\<close>

definition trim :: "jsstring \<Rightarrow> jsstring" where
  "trim s = rev (dropWhile isWhiteSpace (rev (dropWhile isWhiteSpace s)))"

text \<open>
  \<open>s.toLowerCase()\<close> on the strings \<open>normalizeName\<close> applies it to: after the
  replacement every code unit is an ASCII letter or white space, where lowering maps
  \<open>A\<close>..\<open>Z\<close> to \<open>a\<close>..\<open>z\<close> and leaves white space as it is.
\<close>

definition toLowerCase :: "jsstring \<Rightarrow> jsstring" where
  "toLowerCase s = map (\<lambda>c. if 65 \<le> c \<and> c \<le> 90 then c + 32 else c) s"

section \<open>Field normalizers\<close>

text \<open>\<open>extractPhone(phoneStr)\<close>, dedupe.js lines 71-84.\<close>

definition extractPhone :: "jsstring option \<Rightarrow> jsstring option" where
  "extractPhone phoneStr =
     (if \<not> truthy phoneStr then None
      else let cleaned = filter isDigit (the phoneStr) in
        if length cleaned \<ge> 10 then
          (if take 2 cleaned = str ''91'' \<and> length cleaned \<ge> 12 then Some (take 12 cleaned)
           else Some (drop (length cleaned - 10) cleaned))
        else None)"

text \<open>
  The behaviour the specification words for \<open>extractPhone\<close> on a string: strip the
  non-digits; fewer than 10 digits give null; a digit string starting with 91 and of at
  least 12 digits gives its first 12 digits; anything else gives its last 10 digits.
\<close>

definition extractPhone_spec :: "jsstring \<Rightarrow> jsstring option" where
  "extractPhone_spec s =
     (let digits = filter isDigit s in
      if length digits < 10 then None
      else if length digits \<ge> 12 \<and> take 2 digits = str ''91'' then Some (take 12 digits)
      else Some (rev (take 10 (rev digits))))"

text \<open>\<open>name.replace(/[^a-zA-Z\s]/g, ' ')\<close>.\<close>

definition replaceNonLetters :: "jsstring \<Rightarrow> jsstring" where
  "replaceNonLetters s = map (\<lambda>c. if isAsciiLetter c \<or> isWhiteSpace c then c else 32) s"

text \<open>\<open>normalizeName(name)\<close>, dedupe.js lines 86-96.\<close>

definition normalizeName :: "jsstring option \<Rightarrow> jsstring option" where
  "normalizeName name =
     (if \<not> truthy name then None
      else Some (trim (join (str '' '')
             (filter (\<lambda>part. length part > 0)
                (split_ws (toLowerCase (replaceNonLetters (the name))))))))"

section \<open>Name similarity\<close>

text \<open>
  \<open>levenshteinDistance(str1, str2)\<close>, dedupe.js lines 395-413. The source fills a matrix
  with \<open>str2.length + 1\<close> rows and \<open>str1.length + 1\<close> columns, row by row. Row 0
  is \<open>0, 1, .., str1.length\<close>; row \<open>j\<close> starts with \<open>j\<close> and each further cell is
  the minimum of the cell above plus 1, the cell to the left plus 1, and the cell
  diagonally above plus the cost (0 when the two code units are equal, else 1). The result
  is the last cell of the last row. \<open>fillRow\<close> is the inner loop over \<open>i\<close>: it walks
  \<open>str1\<close> with the rest of the row above (starting at column \<open>i - 1\<close>) and the cell
  just written to the left.
\<close>

fun fillRow :: "nat \<Rightarrow> jsstring \<Rightarrow> nat list \<Rightarrow> nat \<Rightarrow> nat list" where
  "fillRow c2 (c1 # cs) (diag # up # prevRow) left =
     (let cost = (if c1 = c2 then 0 else 1);
          cell = min (up + 1) (min (left + 1) (diag + cost))
      in cell # fillRow c2 cs (up # prevRow) cell)"
| "fillRow c2 cs prevRow left = []"

fun fillRows :: "jsstring \<Rightarrow> jsstring \<Rightarrow> nat \<Rightarrow> nat list \<Rightarrow> nat list" where
  "fillRows str1 [] j prevRow = prevRow"
| "fillRows str1 (c2 # cs2) j prevRow =
     fillRows str1 cs2 (j + 1) (j # fillRow c2 str1 prevRow j)"

definition levenshteinDistance :: "jsstring \<Rightarrow> jsstring \<Rightarrow> nat" where
  "levenshteinDistance str1 str2 = last (fillRows str1 str2 1 [0 ..< length str1 + 1])"

text \<open>
  \<open>getLevenshteinSimilarity(str1, str2)\<close>, dedupe.js lines 385-393. The source computes
  the quotient in double precision and compares it with \<open>0.8\<close>; the model computes it
  in the rationals. Both operands of the division are integers (string lengths), so the
  double is the correctly rounded quotient, and rounding is monotone: the comparison with
  the (rounded) literal has the same outcome as the comparison of the exact values, for
  every string a program can hold.
\<close>

definition getLevenshteinSimilarity :: "jsstring \<Rightarrow> jsstring \<Rightarrow> rat" where
  "getLevenshteinSimilarity str1 str2 =
     (let longer = (if length str1 > length str2 then str1 else str2);
          shorter = (if length str1 > length str2 then str2 else str1)
      in if length longer = 0 then 1
         else (of_nat (length longer) - of_nat (levenshteinDistance longer shorter))
              / of_nat (length longer))"

text \<open>The inner loop of \<open>areNamesSimilar\<close> with its \<open>break\<close>: is there a word of
  \<open>words2\<close> close enough to \<open>word1\<close>?\<close>

fun hasMatch :: "jsstring \<Rightarrow> jsstring list \<Rightarrow> bool" where
  "hasMatch word1 [] = False"
| "hasMatch word1 (word2 # rest) =
     (if getLevenshteinSimilarity word1 word2 \<ge> 8 / 10 then True else hasMatch word1 rest)"

text \<open>The outer loop: the value of \<open>matchingWords\<close> after it.\<close>

fun countMatching :: "jsstring list \<Rightarrow> jsstring list \<Rightarrow> nat" where
  "countMatching [] words2 = 0"
| "countMatching (word1 # rest) words2 =
     (if hasMatch word1 words2 then 1 else 0) + countMatching rest words2"

text \<open>\<open>name.split(/\s+/).filter(w => w.length > 2)\<close>.\<close>

definition significantWords :: "jsstring \<Rightarrow> jsstring list" where
  "significantWords name = filter (\<lambda>w. length w > 2) (split_ws name)"

text \<open>The local \<open>similarity\<close> of \<open>areNamesSimilar\<close>: the word-overlap coefficient.\<close>

definition similarity :: "jsstring \<Rightarrow> jsstring \<Rightarrow> rat" where
  "similarity name1 name2 =
     (let words1 = significantWords name1; words2 = significantWords name2
      in of_nat (2 * countMatching words1 words2) / of_nat (length words1 + length words2))"

text \<open>\<open>areNamesSimilar(name1, name2, threshold)\<close>, dedupe.js lines 357-383.\<close>

definition areNamesSimilar :: "jsstring option \<Rightarrow> jsstring option \<Rightarrow> rat \<Rightarrow> bool" where
  "areNamesSimilar name1 name2 threshold =
     (if \<not> truthy name1 \<or> \<not> truthy name2 then False
      else if name1 = name2 then True
      else if length (significantWords (the name1)) = 0
              \<or> length (significantWords (the name2)) = 0 then False
      else similarity (the name1) (the name2) \<ge> threshold)"

section \<open>Candidate records\<close>

text \<open>
  A candidate record as the exact-key query returns it: the three name slots are strings
  (the query fills an absent one with the sentinel \<open>N/A\<close>), email and phone are a
  string or \<open>null\<close>.
\<close>

record contact =
  linkedin_name :: jsstring
  phonebook_name :: jsstring
  email_name :: jsstring
  email :: "jsstring option"
  phone :: "jsstring option"

definition NA :: jsstring where
  "NA = str ''N/A''"

text \<open>\<open>getNameForComparison(contact)\<close>, dedupe.js lines 562-567.\<close>

definition getNameForComparison :: "contact \<Rightarrow> jsstring option" where
  "getNameForComparison c =
     (if linkedin_name c \<noteq> NA then Some (linkedin_name c)
      else if phonebook_name c \<noteq> NA then Some (phonebook_name c)
      else if email_name c \<noteq> NA then Some (email_name c)
      else None)"

text \<open>
  The two \<open>continue\<close> guards of the merge loops (lines 534-535 and 629-630): both
  records have a truthy email and the emails differ, or the same for the phones.
\<close>

definition conflicting :: "contact \<Rightarrow> contact \<Rightarrow> bool" where
  "conflicting current candidate \<longleftrightarrow>
     (truthy (email current) \<and> truthy (email candidate) \<and> email current \<noteq> email candidate)
     \<or> (truthy (phone current) \<and> truthy (phone candidate) \<and> phone current \<noteq> phone candidate)"

text \<open>
  The five assignments that fold a candidate into the current record (lines 546-550 and
  642-648), in the order of the source.
\<close>

definition mergeInto :: "contact \<Rightarrow> contact \<Rightarrow> contact" where
  "mergeInto current candidate =
     (let c1 = (if linkedin_name candidate \<noteq> NA
                then current\<lparr>linkedin_name := linkedin_name candidate\<rparr> else current);
          c2 = (if phonebook_name candidate \<noteq> NA
                then c1\<lparr>phonebook_name := phonebook_name candidate\<rparr> else c1);
          c3 = (if email_name candidate \<noteq> NA
                then c2\<lparr>email_name := email_name candidate\<rparr> else c2);
          c4 = (if \<not> truthy (email c3) \<and> truthy (email candidate)
                then c3\<lparr>email := email candidate\<rparr> else c3);
          c5 = (if \<not> truthy (phone c4) \<and> truthy (phone candidate)
                then c4\<lparr>phone := phone candidate\<rparr> else c4)
      in c5)"

section \<open>The exhaustive merge pass\<close>




section \<open>The focused merge pass\<close>

text \<open>
  The name index (lines 573-588): a \<open>Map\<close> from a word to its posting list. The source
  stores \<open>{index, contact, name, normalized}\<close> in a posting; only \<open>index\<close> is ever read
  back, so a posting is the index. A truthy name is a non-empty string, for which
  \<open>normalizeName\<close> returns a string: that is the value \<open>the\<close> reads here and in the
  main loop.
\<close>

type_synonym name_index = "jsstring \<rightharpoonup> nat list"

fun indexWords :: "nat \<Rightarrow> jsstring list \<Rightarrow> name_index \<Rightarrow> name_index" where
  "indexWords index [] nameIndex = nameIndex"
| "indexWords index (word # rest) nameIndex =
     indexWords index rest
       (nameIndex(word \<mapsto> (case nameIndex word of None \<Rightarrow> [] | Some l \<Rightarrow> l) @ [index]))"

fun buildIndex :: "contact list \<Rightarrow> nat \<Rightarrow> name_index \<Rightarrow> name_index" where
  "buildIndex [] index nameIndex = nameIndex"
| "buildIndex (contact # rest) index nameIndex =
     buildIndex rest (index + 1)
       (if truthy (getNameForComparison contact)
        then indexWords index
               (significantWords (the (normalizeName (getNameForComparison contact)))) nameIndex
        else nameIndex)"

text \<open>
  The candidate \<open>Set\<close> (lines 611-620): a \<open>Set\<close> iterates in insertion order, so it is
  the list of its members in that order, and adding a member already there changes
  nothing.
\<close>

fun addEntries :: "nat \<Rightarrow> nat set \<Rightarrow> nat list \<Rightarrow> nat list \<Rightarrow> nat list" where
  "addEntries i processed [] candidates = candidates"
| "addEntries i processed (e # es) candidates =
     addEntries i processed es
       (if e \<noteq> i \<and> e \<notin> processed
        then (if e \<in> set candidates then candidates else candidates @ [e])
        else candidates)"

fun collectCandidates :: "name_index \<Rightarrow> nat \<Rightarrow> nat set \<Rightarrow> jsstring list \<Rightarrow> nat list \<Rightarrow> nat list" where
  "collectCandidates nameIndex i processed [] candidates = candidates"
| "collectCandidates nameIndex i processed (word # rest) candidates =
     collectCandidates nameIndex i processed rest
       (case nameIndex word of None \<Rightarrow> candidates
        | Some entries \<Rightarrow> addEntries i processed entries candidates)"

text \<open>
  The loop over the candidates (lines 623-653) with the state
  \<open>(current, processed, mergeCount)\<close>. The name of \<open>current\<close> was normalized once,
  before the loop.
\<close>

fun checkCandidates ::
  "contact list \<Rightarrow> jsstring \<Rightarrow> nat list \<Rightarrow> contact \<times> nat set \<times> nat \<Rightarrow> contact \<times> nat set \<times> nat" where
  "checkCandidates contacts currentNormalized [] st = st"
| "checkCandidates contacts currentNormalized (j # js) (current, processed, mergeCount) =
     (if j \<in> processed
        then checkCandidates contacts currentNormalized js (current, processed, mergeCount)
      else if conflicting current (contacts ! j)
        then checkCandidates contacts currentNormalized js (current, processed, mergeCount)
      else if truthy (getNameForComparison (contacts ! j))
              \<and> areNamesSimilar (Some currentNormalized)
                    (normalizeName (getNameForComparison (contacts ! j))) (7 / 10)
        then checkCandidates contacts currentNormalized js
               (mergeInto current (contacts ! j), insert j processed, mergeCount + 1)
      else checkCandidates contacts currentNormalized js (current, processed, mergeCount))"

text \<open>
  The main loop (lines 595-656) over the indices \<open>0, .., contacts.length - 1\<close>, with
  the state \<open>(merged, processed, mergeCount)\<close> of lines 590-592.
\<close>

fun focusedLoop ::
  "contact list \<Rightarrow> name_index \<Rightarrow> nat list \<Rightarrow> contact list \<times> nat set \<times> nat
     \<Rightarrow> contact list \<times> nat set \<times> nat" where
  "focusedLoop contacts nameIndex [] st = st"
| "focusedLoop contacts nameIndex (i # is) (merged, processed, mergeCount) =
     (if i \<in> processed then focusedLoop contacts nameIndex is (merged, processed, mergeCount)
      else if \<not> truthy (getNameForComparison (contacts ! i))
        then focusedLoop contacts nameIndex is
               (merged @ [contacts ! i], insert i processed, mergeCount)
      else
        let currentNormalized = the (normalizeName (getNameForComparison (contacts ! i)));
            candidates = collectCandidates nameIndex i (insert i processed)
                           (significantWords currentNormalized) []
        in case checkCandidates contacts currentNormalized candidates
                  (contacts ! i, insert i processed, mergeCount) of
             (current, processed', mergeCount') \<Rightarrow>
               focusedLoop contacts nameIndex is (merged @ [current], processed', mergeCount'))"

text \<open>The state when the main loop ends.\<close>

definition focusedRun :: "contact list \<Rightarrow> contact list \<times> nat set \<times> nat" where
  "focusedRun contacts =
     focusedLoop contacts (buildIndex contacts 0 Map.empty) [0 ..< length contacts] ([], {}, 0)"

text \<open>The value of \<open>mergeCount\<close> when the main loop ends (logged in line 658 and checked
  in line 662).\<close>

definition finalMergeCount :: "contact list \<Rightarrow> nat" where
  "finalMergeCount contacts = snd (snd (focusedRun contacts))"

text \<open>\<open>mergeSimilarContactsFocused(contacts)\<close>, dedupe.js lines 569-667: it returns
  \<open>merged\<close>.\<close>

definition mergeSimilarContactsFocused :: "contact list \<Rightarrow> contact list" where
  "mergeSimilarContactsFocused contacts = fst (focusedRun contacts)"

section \<open>Reading a run of the focused pass\<close>

text \<open>
  What the run of \<open>checkCandidates\<close> folds into \<open>current\<close>: the indices of the absorbed
  candidates, in the order of absorption. The function follows \<open>checkCandidates\<close> branch
  by branch; \<open>checkCandidates_absorbed\<close> below shows that it reads that run.
\<close>

fun absorbedCandidates ::
  "contact list \<Rightarrow> jsstring \<Rightarrow> nat list \<Rightarrow> contact \<times> nat set \<Rightarrow> nat list" where
  "absorbedCandidates contacts currentNormalized [] st = []"
| "absorbedCandidates contacts currentNormalized (j # js) (current, processed) =
     (if j \<in> processed
        then absorbedCandidates contacts currentNormalized js (current, processed)
      else if conflicting current (contacts ! j)
        then absorbedCandidates contacts currentNormalized js (current, processed)
      else if truthy (getNameForComparison (contacts ! j))
              \<and> areNamesSimilar (Some currentNormalized)
                    (normalizeName (getNameForComparison (contacts ! j))) (7 / 10)
        then j # absorbedCandidates contacts currentNormalized js
                   (mergeInto current (contacts ! j), insert j processed)
      else absorbedCandidates contacts currentNormalized js (current, processed))"

text \<open>
  The groups of a run of the main loop: for every record pushed to \<open>merged\<close>, the index
  of the absorber and the indices it absorbed.
\<close>

fun groupsLoop :: "contact list \<Rightarrow> name_index \<Rightarrow> nat list \<Rightarrow> nat set \<Rightarrow> (nat \<times> nat list) list" where
  "groupsLoop contacts nameIndex [] processed = []"
| "groupsLoop contacts nameIndex (i # is) processed =
     (if i \<in> processed then groupsLoop contacts nameIndex is processed
      else if \<not> truthy (getNameForComparison (contacts ! i))
        then (i, []) # groupsLoop contacts nameIndex is (insert i processed)
      else
        let currentNormalized = the (normalizeName (getNameForComparison (contacts ! i)));
            candidates = collectCandidates nameIndex i (insert i processed)
                           (significantWords currentNormalized) [];
            js = absorbedCandidates contacts currentNormalized candidates
                   (contacts ! i, insert i processed)
        in (i, js) # groupsLoop contacts nameIndex is (insert i processed \<union> set js))"

definition mergeGroups :: "contact list \<Rightarrow> (nat \<times> nat list) list" where
  "mergeGroups contacts =
     groupsLoop contacts (buildIndex contacts 0 Map.empty) [0 ..< length contacts] {}"

text \<open>The record a group stands for: the absorber with the absorbed folded in, in order.\<close>

definition foldGroup :: "contact list \<Rightarrow> nat \<times> nat list \<Rightarrow> contact" where
  "foldGroup contacts g = foldl mergeInto (contacts ! fst g) (map ((!) contacts) (snd g))"

text \<open>The value a name slot holds after the folds: the last value that is not \<open>N/A\<close>
  among the candidates folded in, and the absorber's own value when there is none.\<close>

definition lastWriter :: "jsstring \<Rightarrow> jsstring list \<Rightarrow> jsstring" where
  "lastWriter own written =
     (if filter (\<lambda>v. v \<noteq> NA) written = [] then own else last (filter (\<lambda>v. v \<noteq> NA) written))"


section \<open>Ranking\<close>

text \<open>
  The comparison function of the final sort, dedupe.js lines 496-506. The name slots are
  strings, so \<open>aName || ''\<close> is \<open>aName\<close>. \<open>localeCompare\<close> belongs to the JavaScript
  runtime and depends on its locale data; it is a parameter here.
\<close>

definition score :: "contact \<Rightarrow> int" where
  "score a = (if linkedin_name a \<noteq> NA then 1 else if phonebook_name a \<noteq> NA then 2 else 3)"

definition sortName :: "contact \<Rightarrow> jsstring" where
  "sortName a =
     (if linkedin_name a \<noteq> NA then linkedin_name a
      else if phonebook_name a \<noteq> NA then phonebook_name a else email_name a)"

definition compareContacts :: "(jsstring \<Rightarrow> jsstring \<Rightarrow> int) \<Rightarrow> contact \<Rightarrow> contact \<Rightarrow> int" where
  "compareContacts localeCompare a b =
     (if score a \<noteq> score b then score a - score b
      else localeCompare (sortName a) (sortName b))"

text \<open>
  \<open>Array.prototype.sort(comparefn)\<close>: ECMAScript leaves the algorithm to the engine and
  fixes the result for a consistent comparison function: the stable sorted permutation.
  Insertion from the right end, each element placed before the first one it does not
  come after, computes that permutation.
\<close>

fun insertSorted :: "('a \<Rightarrow> 'a \<Rightarrow> int) \<Rightarrow> 'a \<Rightarrow> 'a list \<Rightarrow> 'a list" where
  "insertSorted comparefn x [] = [x]"
| "insertSorted comparefn x (y # ys) =
     (if comparefn x y \<le> 0 then x # y # ys else y # insertSorted comparefn x ys)"

fun sortArray :: "('a \<Rightarrow> 'a \<Rightarrow> int) \<Rightarrow> 'a list \<Rightarrow> 'a list" where
  "sortArray comparefn [] = []"
| "sortArray comparefn (x # xs) = insertSorted comparefn x (sortArray comparefn xs)"

definition sortResults :: "(jsstring \<Rightarrow> jsstring \<Rightarrow> int) \<Rightarrow> contact list \<Rightarrow> contact list" where
  "sortResults localeCompare mergedResults = sortArray (compareContacts localeCompare) mergedResults"

text \<open>A comparison function to run the sort with: code unit by code unit, a proper prefix
  first.\<close>

fun compareCodeUnits :: "jsstring \<Rightarrow> jsstring \<Rightarrow> int" where
  "compareCodeUnits [] [] = 0"
| "compareCodeUnits [] (y # ys) = - 1"
| "compareCodeUnits (x # xs) [] = 1"
| "compareCodeUnits (x # xs) (y # ys) =
     (if x < y then - 1 else if y < x then 1 else compareCodeUnits xs ys)"

section \<open>Example records\<close>

definition johnSmith :: contact where
  "johnSmith = \<lparr>linkedin_name = str ''John Smith'', phonebook_name = NA, email_name = NA,
                email = Some (str ''js@x.com''), phone = None\<rparr>"

definition johnSmyth :: contact where
  "johnSmyth = \<lparr>linkedin_name = str ''John Smyth'', phonebook_name = NA, email_name = NA,
                email = Some (str ''js@x.com''), phone = Some (str ''9876543210'')\<rparr>"

definition smith :: contact where
  "smith = \<lparr>linkedin_name = str ''Smith'', phonebook_name = NA, email_name = NA,
            email = None, phone = None\<rparr>"






definition nameless :: contact where
  "nameless = \<lparr>linkedin_name = NA, phonebook_name = NA, email_name = NA,
               email = Some (str ''a@x.com''), phone = None\<rparr>"

definition janeMail :: contact where
  "janeMail = \<lparr>linkedin_name = NA, phonebook_name = NA, email_name = str ''Jane Doe'',
               email = Some (str ''jane@x.com''), phone = None\<rparr>"

definition janePhone :: contact where
  "janePhone = \<lparr>linkedin_name = NA, phonebook_name = str ''Jane Doe'', email_name = NA,
                email = None, phone = Some (str ''9876543210'')\<rparr>"

definition amyPhone :: contact where
  "amyPhone = \<lparr>linkedin_name = NA, phonebook_name = str ''Amy Roe'', email_name = NA,
               email = Some (str ''amy@x.com''), phone = None\<rparr>"

definition bobMail :: contact where
  "bobMail = \<lparr>linkedin_name = NA, phonebook_name = NA, email_name = str ''Bob Ray'',
              email = Some (str ''bob@x.com''), phone = Some (str ''9123456780'')\<rparr>"

section \<open>Predicates used in the proofs\<close>

text \<open>A list of words as \<open>normalizeName\<close> joins them: no word is empty and no word
  holds white space.\<close>

definition wordsOk :: "jsstring list \<Rightarrow> bool" where
  "wordsOk ts \<longleftrightarrow> (\<forall>t\<in>set ts. t \<noteq> [] \<and> (\<forall>c\<in>set t. \<not> isWhiteSpace c))"

text \<open>Such a list whose words are made of the letters \<open>a\<close>..\<open>z\<close> only.\<close>

definition lowerWords :: "jsstring list \<Rightarrow> bool" where
  "lowerWords ts \<longleftrightarrow> wordsOk ts \<and> (\<forall>t\<in>set ts. \<forall>c\<in>set t. 97 \<le> c \<and> c \<le> 122)"

text \<open>The test of the candidate loop: candidate \<open>j\<close> is folded into \<open>cur\<close>.\<close>

definition absorbs :: "contact list \<Rightarrow> jsstring \<Rightarrow> contact \<Rightarrow> nat set \<Rightarrow> nat \<Rightarrow> bool" where
  "absorbs xs cn cur p j \<longleftrightarrow>
     j \<notin> p \<and> \<not> conflicting cur (xs ! j) \<and> truthy (getNameForComparison (xs ! j))
     \<and> areNamesSimilar (Some cn) (normalizeName (getNameForComparison (xs ! j))) (7 / 10)"

text \<open>The posting list of a word, empty for a word the index does not hold.\<close>

definition postings :: "name_index \<Rightarrow> jsstring \<Rightarrow> nat list" where
  "postings nameIndex word = (case nameIndex word of None \<Rightarrow> [] | Some l \<Rightarrow> l)"

text \<open>A record whose normalized comparison name has the significant word \<open>w\<close>.\<close>

definition hasWord :: "jsstring \<Rightarrow> contact \<Rightarrow> bool" where
  "hasWord w c \<longleftrightarrow>
     truthy (getNameForComparison c)
     \<and> w \<in> set (significantWords (the (normalizeName (getNameForComparison c))))"

text \<open>The candidates the main loop folds into record \<open>i\<close> when it reaches \<open>i\<close>
  with the processed set \<open>p\<close>.\<close>

definition absorbedOf :: "contact list \<Rightarrow> name_index \<Rightarrow> nat \<Rightarrow> nat set \<Rightarrow> nat list" where
  "absorbedOf xs idx i p =
     absorbedCandidates xs (the (normalizeName (getNameForComparison (xs ! i))))
       (collectCandidates idx i (insert i p)
          (significantWords (the (normalizeName (getNameForComparison (xs ! i))))) [])
       (xs ! i, insert i p)"

text \<open>The indices a list of groups holds, absorbers and absorbed.\<close>

definition members :: "(nat \<times> nat list) list \<Rightarrow> nat set" where
  "members gs = (\<Union>g\<in>set gs. insert (fst g) (set (snd g)))"

text \<open>The number of absorbed candidates in a list of groups.\<close>

definition absorbedCount :: "(nat \<times> nat list) list \<Rightarrow> nat" where
  "absorbedCount gs = sum_list (map (\<lambda>g. length (snd g)) gs)"




section \<open>Splitting, joining and trimming\<close>

lemma split_ws_last:
  assumes "dropWhile (\<lambda>c. \<not> isWhiteSpace c) s = []" shows "split_ws s = [s]"
  by (subst split_ws.simps [of s]) (rule if_P [OF assms])

lemma split_ws_more:
  assumes "dropWhile (\<lambda>c. \<not> isWhiteSpace c) s \<noteq> []"
  shows "split_ws s = takeWhile (\<lambda>c. \<not> isWhiteSpace c) s
           # split_ws (dropWhile isWhiteSpace (dropWhile (\<lambda>c. \<not> isWhiteSpace c) s))"
  by (subst split_ws.simps [of s]) (rule if_not_P [OF assms])

lemma split_ws_no_space: "t \<in> set (split_ws s) \<Longrightarrow> c \<in> set t \<Longrightarrow> \<not> isWhiteSpace c"
proof (induction s arbitrary: t rule: split_ws.induct)
  case (1 s)
  show ?case
  proof (cases "dropWhile (\<lambda>c. \<not> isWhiteSpace c) s = []")
    case True
    then have "t = s" using "1.prems"(1) by (simp add: split_ws_last)
    moreover have "\<forall>x\<in>set s. \<not> isWhiteSpace x" using True by (simp add: dropWhile_eq_Nil_conv)
    ultimately show ?thesis using "1.prems"(2) by blast
  next
    case False
    then have "t = takeWhile (\<lambda>c. \<not> isWhiteSpace c) s
        \<or> t \<in> set (split_ws (dropWhile isWhiteSpace (dropWhile (\<lambda>c. \<not> isWhiteSpace c) s)))"
      using "1.prems"(1) by (simp add: split_ws_more)
    then show ?thesis
    proof
      assume "t = takeWhile (\<lambda>c. \<not> isWhiteSpace c) s"
      then show ?thesis using "1.prems"(2) by (auto dest: set_takeWhileD)
    next
      assume "t \<in> set (split_ws (dropWhile isWhiteSpace (dropWhile (\<lambda>c. \<not> isWhiteSpace c) s)))"
      then show ?thesis using "1.IH" [OF False] "1.prems"(2) by blast
    qed
  qed
qed

lemma split_ws_subset: "t \<in> set (split_ws s) \<Longrightarrow> set t \<subseteq> set s"
proof (induction s arbitrary: t rule: split_ws.induct)
  case (1 s)
  show ?case
  proof (cases "dropWhile (\<lambda>c. \<not> isWhiteSpace c) s = []")
    case True
    then show ?thesis using "1.prems" by (simp add: split_ws_last)
  next
    case False
    then have "t = takeWhile (\<lambda>c. \<not> isWhiteSpace c) s
        \<or> t \<in> set (split_ws (dropWhile isWhiteSpace (dropWhile (\<lambda>c. \<not> isWhiteSpace c) s)))"
      using "1.prems"(1) by (simp add: split_ws_more)
    then show ?thesis
    proof
      assume "t = takeWhile (\<lambda>c. \<not> isWhiteSpace c) s"
      then show ?thesis by (auto dest: set_takeWhileD)
    next
      assume "t \<in> set (split_ws (dropWhile isWhiteSpace (dropWhile (\<lambda>c. \<not> isWhiteSpace c) s)))"
      then have "set t \<subseteq> set (dropWhile isWhiteSpace (dropWhile (\<lambda>c. \<not> isWhiteSpace c) s))"
        using "1.IH" [OF False] by blast
      then show ?thesis by (auto dest!: set_dropWhileD)
    qed
  qed
qed

lemma filter_dropWhile_not: "filter P (dropWhile (\<lambda>x. \<not> P x) xs) = filter P xs"
  by (induction xs) auto

lemma concat_split_ws: "concat (split_ws s) = filter (\<lambda>c. \<not> isWhiteSpace c) s"
proof (induction s rule: split_ws.induct)
  case (1 s)
  show ?case
  proof (cases "dropWhile (\<lambda>c. \<not> isWhiteSpace c) s = []")
    case True
    then have "\<forall>x\<in>set s. \<not> isWhiteSpace x" by (simp add: dropWhile_eq_Nil_conv)
    then have "filter (\<lambda>c. \<not> isWhiteSpace c) s = s" by (simp add: filter_id_conv)
    then show ?thesis using split_ws_last [OF True] by simp
  next
    case False
    let ?t = "takeWhile (\<lambda>c. \<not> isWhiteSpace c) s"
    let ?d = "dropWhile (\<lambda>c. \<not> isWhiteSpace c) s"
    have "concat (split_ws s) = ?t @ concat (split_ws (dropWhile isWhiteSpace ?d))"
      using split_ws_more [OF False] by simp
    also have "\<dots> = ?t @ filter (\<lambda>c. \<not> isWhiteSpace c) (dropWhile isWhiteSpace ?d)"
      using "1.IH" [OF False] by simp
    also have "filter (\<lambda>c. \<not> isWhiteSpace c) (dropWhile isWhiteSpace ?d)
        = filter (\<lambda>c. \<not> isWhiteSpace c) ?d"
      using filter_dropWhile_not [of "\<lambda>c. \<not> isWhiteSpace c" ?d] by simp
    finally have c: "concat (split_ws s) = ?t @ filter (\<lambda>c. \<not> isWhiteSpace c) ?d" .
    have "filter (\<lambda>c. \<not> isWhiteSpace c) ?t = ?t"
      by (rule filter_True) (auto dest: set_takeWhileD)
    then have "?t @ filter (\<lambda>c. \<not> isWhiteSpace c) ?d = filter (\<lambda>c. \<not> isWhiteSpace c) (?t @ ?d)"
      by (simp only: filter_append)
    then show ?thesis using c by simp
  qed
qed

lemma concat_filter_nonempty: "concat (filter (\<lambda>p. length p > 0) xs) = concat xs"
  by (induction xs) auto

lemma space_ws: "isWhiteSpace 32"
  by (simp add: isWhiteSpace_def)

lemma str_space: "str '' '' = [32]"
  by (simp add: str_def)

lemma join_hd_last:
  "wordsOk ts \<Longrightarrow> ts \<noteq> [] \<Longrightarrow>
     join [32] ts \<noteq> [] \<and> hd (join [32] ts) = hd (hd ts) \<and> last (join [32] ts) = last (last ts)"
proof (induction "[32::nat]" ts rule: join.induct)
  case 1 then show ?case by simp
next
  case (2 x) then show ?case by (simp add: wordsOk_def)
next
  case (3 x y ys)
  then have "wordsOk (y # ys)" by (simp add: wordsOk_def)
  with 3 have "join [32] (y # ys) \<noteq> []" "last (join [32] (y # ys)) = last (last (y # ys))" by simp_all
  moreover have "x \<noteq> []" using "3.prems" by (simp add: wordsOk_def)
  ultimately show ?case by simp
qed

lemma dropWhile_ws_join:
  assumes "wordsOk ts" shows "dropWhile isWhiteSpace (join [32] ts) = join [32] ts"
proof (cases "ts = []")
  case True then show ?thesis by simp
next
  case False
  then have j: "join [32] ts \<noteq> []" "hd (join [32] ts) = hd (hd ts)" using join_hd_last [OF assms] by simp_all
  have "hd ts \<in> set ts" using False by simp
  then have "hd ts \<noteq> []" "\<forall>c\<in>set (hd ts). \<not> isWhiteSpace c" using assms by (auto simp: wordsOk_def)
  then have "\<not> isWhiteSpace (hd (hd ts))" by simp
  then show ?thesis using j by (cases "join [32] ts") auto
qed

lemma split_ws_join:
  "wordsOk ts \<Longrightarrow> filter (\<lambda>p. length p > 0) (split_ws (join [32] ts)) = ts"
proof (induction "[32::nat]" ts rule: join.induct)
  case 1
  then show ?case by (simp add: split_ws_last)
next
  case (2 x)
  then have "x \<noteq> []" "\<forall>c\<in>set x. \<not> isWhiteSpace c" by (simp_all add: wordsOk_def)
  then have "dropWhile (\<lambda>c. \<not> isWhiteSpace c) x = []" by simp
  then show ?case using \<open>x \<noteq> []\<close> by (simp add: split_ws_last)
next
  case (3 x y ys)
  then have x: "x \<noteq> []" "\<forall>c\<in>set x. \<not> isWhiteSpace c" and ok: "wordsOk (y # ys)"
    by (simp_all add: wordsOk_def)
  let ?r = "join [32] (y # ys)"
  have t: "takeWhile (\<lambda>c. \<not> isWhiteSpace c) (x @ 32 # ?r) = x"
    using x space_ws by (simp add: takeWhile_append2)
  have d: "dropWhile (\<lambda>c. \<not> isWhiteSpace c) (x @ 32 # ?r) = 32 # ?r"
    using x space_ws by (simp add: dropWhile_append2)
  have "split_ws (x @ 32 # ?r) = x # split_ws (dropWhile isWhiteSpace (32 # ?r))"
    using split_ws_more [of "x @ 32 # ?r"] by (simp add: t d)
  also have "dropWhile isWhiteSpace (32 # ?r) = ?r"
    using space_ws dropWhile_ws_join [OF ok] by simp
  finally show ?case using x "3.hyps" [OF ok] by simp
qed

lemma trim_id: "s = [] \<or> (\<not> isWhiteSpace (hd s) \<and> \<not> isWhiteSpace (last s)) \<Longrightarrow> trim s = s"
proof (cases s)
  case Nil then show ?thesis by (simp add: trim_def)
next
  case (Cons a as)
  assume "s = [] \<or> (\<not> isWhiteSpace (hd s) \<and> \<not> isWhiteSpace (last s))"
  then have h: "\<not> isWhiteSpace (hd s)" "\<not> isWhiteSpace (last s)" using Cons by auto
  then have 1: "dropWhile isWhiteSpace s = s" using Cons by simp
  have "dropWhile isWhiteSpace (rev s) = rev s"
    using h(2) Cons by (simp only: dropWhile_eq_self_iff hd_rev) simp
  then show ?thesis using 1 by (simp add: trim_def)
qed

lemma trim_join:
  assumes "wordsOk ts"
  shows "trim (join [32] ts) = join [32] ts"
proof (cases "ts = []")
  case True then show ?thesis by (simp add: trim_def)
next
  case False
  then have j: "join [32] ts \<noteq> []" "hd (join [32] ts) = hd (hd ts)" "last (join [32] ts) = last (last ts)"
    using join_hd_last [OF assms] by simp_all
  have "hd ts \<in> set ts" "last ts \<in> set ts" using False by simp_all
  then have "hd ts \<noteq> []" "\<forall>c\<in>set (hd ts). \<not> isWhiteSpace c" "last ts \<noteq> []" "\<forall>c\<in>set (last ts). \<not> isWhiteSpace c"
    using assms by (auto simp: wordsOk_def)
  then have "\<not> isWhiteSpace (hd (hd ts))" "\<not> isWhiteSpace (last (last ts))" by simp_all
  then show ?thesis using j by (intro trim_id) simp
qed

lemma set_join: "set (join [32] ts) \<subseteq> insert 32 (\<Union> (set ` set ts))"
  by (induction "[32::nat]" ts rule: join.induct) auto

lemma join_Nil_iff: "wordsOk ts \<Longrightarrow> join [32] ts = [] \<longleftrightarrow> ts = []"
  using join_hd_last [of ts] by auto


lemma lower_not_ws: "97 \<le> c \<Longrightarrow> c \<le> 122 \<Longrightarrow> \<not> isWhiteSpace c"
  by (simp add: isWhiteSpace_def)

lemma unit_other:
  "\<not> isAsciiLetter c \<Longrightarrow> \<not> (65 \<le> c \<and> c \<le> 90)"
  by (auto simp: isAsciiLetter_def)

lemma lowered_unit:
  "(isAsciiLetter c \<longrightarrow>
      97 \<le> (\<lambda>c. if 65 \<le> c \<and> c \<le> 90 then c + 32 else c)
               ((\<lambda>c. if isAsciiLetter c \<or> isWhiteSpace c then c else 32) c)
      \<and> (\<lambda>c. if 65 \<le> c \<and> c \<le> 90 then c + 32 else c)
               ((\<lambda>c. if isAsciiLetter c \<or> isWhiteSpace c then c else 32) c) \<le> 122)
   \<and> (\<not> isAsciiLetter c \<longrightarrow>
      isWhiteSpace ((\<lambda>c. if 65 \<le> c \<and> c \<le> 90 then c + 32 else c)
               ((\<lambda>c. if isAsciiLetter c \<or> isWhiteSpace c then c else 32) c)))"
proof (cases "isAsciiLetter c")
  case True
  show ?thesis
  proof (cases "65 \<le> c \<and> c \<le> 90")
    case upper: True
    then show ?thesis using True by simp
  next
    case lower: False
    then have "97 \<le> c \<and> c \<le> 122" using True by (auto simp: isAsciiLetter_def)
    then show ?thesis using True lower by simp
  qed
next
  case False
  have nu: "\<not> (65 \<le> c \<and> c \<le> 90)" by (rule unit_other [OF False])
  show ?thesis
  proof (cases "isWhiteSpace c")
    case True
    then show ?thesis using False nu by auto
  next
    case notws: False
    then show ?thesis using False space_ws by simp
  qed
qed

lemma lowered_set:
  "set (toLowerCase (replaceNonLetters x))
     = (\<lambda>c. (\<lambda>c. if 65 \<le> c \<and> c \<le> 90 then c + 32 else c)
               ((\<lambda>c. if isAsciiLetter c \<or> isWhiteSpace c then c else 32) c)) ` set x"
  unfolding toLowerCase_def replaceNonLetters_def by (simp only: set_map image_image)

lemma lowered_chars:
  assumes "c \<in> set (toLowerCase (replaceNonLetters x))"
  shows "isWhiteSpace c \<or> (97 \<le> c \<and> c \<le> 122)"
proof -
  from assms obtain d where d: "d \<in> set x"
    and c: "c = (\<lambda>c. if 65 \<le> c \<and> c \<le> 90 then c + 32 else c)
               ((\<lambda>c. if isAsciiLetter c \<or> isWhiteSpace c then c else 32) d)"
    unfolding lowered_set by blast
  show ?thesis using lowered_unit [of d] unfolding c [symmetric] by blast
qed

lemma lowered_all_space:
  "(\<forall>c\<in>set (toLowerCase (replaceNonLetters x)). isWhiteSpace c) \<longleftrightarrow> (\<forall>c\<in>set x. \<not> isAsciiLetter c)"
proof
  assume a: "\<forall>c\<in>set (toLowerCase (replaceNonLetters x)). isWhiteSpace c"
  show "\<forall>c\<in>set x. \<not> isAsciiLetter c"
  proof
    fix d assume d: "d \<in> set x"
    let ?c = "(\<lambda>c. if 65 \<le> c \<and> c \<le> 90 then c + 32 else c)
               ((\<lambda>c. if isAsciiLetter c \<or> isWhiteSpace c then c else 32) d)"
    have "?c \<in> set (toLowerCase (replaceNonLetters x))" unfolding lowered_set using d by blast
    then have "isWhiteSpace ?c" using a by blast
    then show "\<not> isAsciiLetter d" using lowered_unit [of d] lower_not_ws [of ?c] by blast
  qed
next
  assume a: "\<forall>c\<in>set x. \<not> isAsciiLetter c"
  show "\<forall>c\<in>set (toLowerCase (replaceNonLetters x)). isWhiteSpace c"
    unfolding lowered_set using a lowered_unit by blast
qed

lemma lowerWords_parts:
  "lowerWords (filter (\<lambda>part. length part > 0) (split_ws (toLowerCase (replaceNonLetters x))))"
proof -
  let ?z = "toLowerCase (replaceNonLetters x)"
  have "\<And>t c. t \<in> set (split_ws ?z) \<Longrightarrow> c \<in> set t \<Longrightarrow> \<not> isWhiteSpace c \<and> 97 \<le> c \<and> c \<le> 122"
  proof -
    fix t c assume t: "t \<in> set (split_ws ?z)" and c: "c \<in> set t"
    have 1: "\<not> isWhiteSpace c" using split_ws_no_space [OF t c] .
    have "c \<in> set ?z" using split_ws_subset [OF t] c by blast
    with lowered_chars [of c x] 1 show "\<not> isWhiteSpace c \<and> 97 \<le> c \<and> c \<le> 122" by blast
  qed
  then show ?thesis by (auto simp: lowerWords_def wordsOk_def)
qed

lemma parts_Nil_iff:
  "filter (\<lambda>part. length part > 0) (split_ws (toLowerCase (replaceNonLetters x))) = []
     \<longleftrightarrow> (\<forall>c\<in>set x. \<not> isAsciiLetter c)"
proof -
  let ?z = "toLowerCase (replaceNonLetters x)"
  let ?w = "filter (\<lambda>part. length part > 0) (split_ws ?z)"
  have "?w = [] \<longleftrightarrow> concat ?w = []" by (auto simp: filter_empty_conv)
  also have "concat ?w = concat (split_ws ?z)" by (rule concat_filter_nonempty)
  also have "\<dots> = filter (\<lambda>c. \<not> isWhiteSpace c) ?z" by (rule concat_split_ws)
  also have "\<dots> = [] \<longleftrightarrow> (\<forall>c\<in>set ?z. isWhiteSpace c)" by (simp add: filter_empty_conv)
  also have "\<dots> \<longleftrightarrow> (\<forall>c\<in>set x. \<not> isAsciiLetter c)" by (rule lowered_all_space)
  finally show ?thesis .
qed

lemma normalizeName_Some:
  "x \<noteq> [] \<Longrightarrow> normalizeName (Some x)
     = Some (join [32] (filter (\<lambda>part. length part > 0)
                          (split_ws (toLowerCase (replaceNonLetters x)))))"
  using lowerWords_parts [of x]
  by (simp add: normalizeName_def truthy_def str_space trim_join lowerWords_def)

lemma lowerWords_fixed:
  assumes "lowerWords ts"
  shows "toLowerCase (replaceNonLetters (join [32] ts)) = join [32] ts"
proof -
  have "\<And>c. c \<in> set (join [32] ts) \<Longrightarrow> c = 32 \<or> (97 \<le> c \<and> c \<le> 122)"
    using set_join [of ts] assms by (auto simp: lowerWords_def)
  then have 1: "replaceNonLetters (join [32] ts) = join [32] ts"
    unfolding replaceNonLetters_def
    by (intro map_idI) (auto simp: isAsciiLetter_def isWhiteSpace_def)
  have "\<And>c. c \<in> set (join [32] ts) \<Longrightarrow> \<not> (65 \<le> c \<and> c \<le> 90)"
    using \<open>\<And>c. c \<in> set (join [32] ts) \<Longrightarrow> c = 32 \<or> (97 \<le> c \<and> c \<le> 122)\<close> by fastforce
  then have "toLowerCase (join [32] ts) = join [32] ts"
    unfolding toLowerCase_def by (intro map_idI) auto
  with 1 show ?thesis by simp
qed

lemma normalizeName_join:
  assumes "lowerWords ts" "ts \<noteq> []"
  shows "normalizeName (Some (join [32] ts)) = Some (join [32] ts)"
proof -
  have ok: "wordsOk ts" using assms(1) by (simp add: lowerWords_def)
  have ne: "join [32] ts \<noteq> []" using join_Nil_iff [OF ok] assms(2) by simp
  show ?thesis
    using split_ws_join [OF ok]
    by (simp add: normalizeName_Some [OF ne] lowerWords_fixed [OF assms(1)])
qed

lemma normalizeName_falsy: "normalizeName None = None" "normalizeName (Some []) = None"
  by (simp_all add: normalizeName_def truthy_def)

lemma extractPhone_eq_spec: "extractPhone (Some s) = extractPhone_spec s"
proof (cases "s = []")
  case True
  then show ?thesis by (simp add: extractPhone_def extractPhone_spec_def truthy_def)
next
  case False
  define d where "d = filter isDigit s"
  have r: "rev (take 10 (rev d)) = drop (length d - 10) d"
    by (simp add: rev_take)
  have "extractPhone (Some s) =
          (if length d \<ge> 10 then
             (if take 2 d = str ''91'' \<and> length d \<ge> 12 then Some (take 12 d)
              else Some (drop (length d - 10) d))
           else None)"
    using False by (simp add: extractPhone_def truthy_def d_def Let_def)
  moreover have "extractPhone_spec s =
          (if length d < 10 then None
           else if length d \<ge> 12 \<and> take 2 d = str ''91'' then Some (take 12 d)
           else Some (drop (length d - 10) d))"
    by (simp add: extractPhone_spec_def d_def [symmetric] r Let_def)
  ultimately show ?thesis by (cases "length d < 10") auto
qed

section \<open>Evaluation on concrete names\<close>

lemmas string_eval = str_def truthy_def isWhiteSpace_def isAsciiLetter_def isDigit_def
  split_ws.simps trim_def toLowerCase_def replaceNonLetters_def normalizeName_def

lemma normalize_digits: "normalizeName (Some (str ''123'')) = Some []"
  by (simp add: string_eval)

lemma normalize_abhijit:
  "normalizeName (Some (str ''abhijit hazari'')) = Some (str ''abhijit hazari'')"
  by (simp add: string_eval)

lemma normalize_cg_abhijit:
  "normalizeName (Some (str ''cg abhijit hazari'')) = Some (str ''cg abhijit hazari'')"
  by (simp add: string_eval)

lemma words_abhijit:
  "significantWords (str ''abhijit hazari'') = [str ''abhijit'', str ''hazari'']"
  by (simp add: significantWords_def str_def isWhiteSpace_def split_ws.simps)

lemma words_cg_abhijit:
  "significantWords (str ''cg abhijit hazari'') = [str ''abhijit'', str ''hazari'']"
  by (simp add: significantWords_def str_def isWhiteSpace_def split_ws.simps)

lemma similarity_abhijit_abhijit:
  "getLevenshteinSimilarity (str ''abhijit'') (str ''abhijit'') = 1"
  by (simp add: str_def levenshteinDistance_def getLevenshteinSimilarity_def Let_def)

lemma similarity_hazari_abhijit:
  "getLevenshteinSimilarity (str ''hazari'') (str ''abhijit'') = 1 / 7"
  by (simp add: str_def levenshteinDistance_def getLevenshteinSimilarity_def Let_def)

lemma similarity_hazari_hazari:
  "getLevenshteinSimilarity (str ''hazari'') (str ''hazari'') = 1"
  by (simp add: str_def levenshteinDistance_def getLevenshteinSimilarity_def Let_def)

lemma similarity_abhijit_hazari:
  "getLevenshteinSimilarity (str ''abhijit'') (str ''hazari'') = 1 / 7"
  by (simp add: str_def levenshteinDistance_def getLevenshteinSimilarity_def Let_def)

lemma similarity_abhijit:
  "similarity (str ''abhijit hazari'') (str ''cg abhijit hazari'') = 1"
  by (simp add: similarity_def words_abhijit words_cg_abhijit similarity_abhijit_abhijit
        similarity_hazari_abhijit similarity_hazari_hazari similarity_abhijit_hazari)

lemma names_differ: "str ''abhijit hazari'' \<noteq> str ''cg abhijit hazari''"
  by (simp add: str_def)

lemma similar_abhijit:
  "t \<le> 1 \<Longrightarrow> areNamesSimilar (Some (str ''abhijit hazari'')) (Some (str ''cg abhijit hazari'')) t"
  by (simp add: areNamesSimilar_def truthy_def names_differ words_abhijit words_cg_abhijit
        similarity_abhijit) (simp add: str_def)

section \<open>Claims about the normalizers and the similarity metric\<close>

text \<open>
  C4, as amended. For the normalized names "abhijit hazari" and "cg abhijit hazari" the
  word-overlap similarity is similar=true at threshold 0.7. The word "cg" is not longer
  than 2 characters, so it is not a significant word: the second name has the 2
  significant words "abhijit" and "hazari", the coefficient is 2*2/(2+2) = 1, and the names
  are similar at threshold 0.95 too.
\<close>

theorem abhijit_similar_at_every_threshold:
  "areNamesSimilar (normalizeName (Some (str ''abhijit hazari'')))
      (normalizeName (Some (str ''cg abhijit hazari''))) (7 / 10)
   \<and> significantWords (the (normalizeName (Some (str ''cg abhijit hazari''))))
       = [str ''abhijit'', str ''hazari'']
   \<and> similarity (the (normalizeName (Some (str ''abhijit hazari''))))
       (the (normalizeName (Some (str ''cg abhijit hazari'')))) = 2 * 2 / (2 + 2)
   \<and> areNamesSimilar (normalizeName (Some (str ''abhijit hazari'')))
      (normalizeName (Some (str ''cg abhijit hazari''))) (95 / 100)"
  by (simp add: normalize_abhijit normalize_cg_abhijit similar_abhijit words_cg_abhijit
        similarity_abhijit)

text \<open>C4 read on the normalized strings themselves.\<close>

theorem abhijit_similar_at_every_threshold_witness:
  "areNamesSimilar (Some (str ''abhijit hazari'')) (Some (str ''cg abhijit hazari'')) (7 / 10)
   \<and> areNamesSimilar (Some (str ''abhijit hazari'')) (Some (str ''cg abhijit hazari''))
        (95 / 100)"
  using abhijit_similar_at_every_threshold
  by (simp add: normalize_abhijit normalize_cg_abhijit)

text \<open>
  C4 as stated fails: the coefficient is not 2*2/(2+3) and the names are similar at
  threshold 0.95.
\<close>

theorem abhijit_threshold_counterexample:
  "\<not> (similarity (the (normalizeName (Some (str ''abhijit hazari''))))
         (the (normalizeName (Some (str ''cg abhijit hazari'')))) = 2 * 2 / (2 + 3)
       \<and> \<not> areNamesSimilar (normalizeName (Some (str ''abhijit hazari'')))
            (normalizeName (Some (str ''cg abhijit hazari''))) (95 / 100))"
  by (simp add: normalize_abhijit normalize_cg_abhijit similar_abhijit similarity_abhijit)

text \<open>
  C5, as amended. Name normalization is idempotent on every string that is empty or holds
  at least one ASCII letter: normalizeName(normalizeName(x)) equals normalizeName(x). For
  a non-empty string without an ASCII letter, normalizeName(x) is the empty string and
  normalizing that again gives null.
\<close>

theorem normalizeName_idempotent_on_names:
  "((x = [] \<or> (\<exists>c\<in>set x. isAsciiLetter c))
      \<longrightarrow> normalizeName (normalizeName (Some x)) = normalizeName (Some x))
   \<and> ((x \<noteq> [] \<and> (\<forall>c\<in>set x. \<not> isAsciiLetter c))
      \<longrightarrow> normalizeName (Some x) = Some [] \<and> normalizeName (normalizeName (Some x)) = None)"
proof (cases "x = []")
  case True
  then show ?thesis by (simp add: normalizeName_falsy)
next
  case False
  let ?w = "filter (\<lambda>part. length part > 0) (split_ws (toLowerCase (replaceNonLetters x)))"
  have n: "normalizeName (Some x) = Some (join [32] ?w)" by (rule normalizeName_Some [OF False])
  have lw: "lowerWords ?w" by (rule lowerWords_parts)
  show ?thesis
  proof (cases "\<forall>c\<in>set x. \<not> isAsciiLetter c")
    case True
    then have "?w = []" using parts_Nil_iff [of x] by simp
    then show ?thesis using n True False by (simp add: normalizeName_falsy)
  next
    case noletter: False
    then have "?w \<noteq> []" using parts_Nil_iff [of x] by simp
    then have "normalizeName (Some (join [32] ?w)) = Some (join [32] ?w)"
      using normalizeName_join [OF lw] by simp
    then show ?thesis using n noletter by simp
  qed
qed

text \<open>The two cases of C5 at "Dr. Jane  DOE" and at "123".\<close>

theorem normalizeName_idempotent_on_names_witness:
  "(\<exists>c\<in>set (str ''Dr. Jane  DOE''). isAsciiLetter c)
   \<and> normalizeName (normalizeName (Some (str ''Dr. Jane  DOE'')))
       = normalizeName (Some (str ''Dr. Jane  DOE''))
   \<and> str ''123'' \<noteq> [] \<and> \<not> (\<exists>c\<in>set (str ''123''). isAsciiLetter c)
   \<and> normalizeName (Some (str ''123'')) = Some []
   \<and> normalizeName (normalizeName (Some (str ''123''))) = None"
proof -
  have a: "\<exists>c\<in>set (str ''Dr. Jane  DOE''). isAsciiLetter c"
    by (simp add: str_def isAsciiLetter_def)
  have b: "str ''123'' \<noteq> [] \<and> (\<forall>c\<in>set (str ''123''). \<not> isAsciiLetter c)"
    by (simp add: str_def isAsciiLetter_def)
  show ?thesis
    using a b normalizeName_idempotent_on_names [of "str ''Dr. Jane  DOE''"]
      normalizeName_idempotent_on_names [of "str ''123''"]
    by blast
qed

text \<open>C5 as stated fails at "123": normalizing once gives the empty string, twice gives
  null.\<close>

theorem normalizeName_idempotent_counterexample:
  "normalizeName (normalizeName (Some (str ''123''))) \<noteq> normalizeName (Some (str ''123''))"
  by (simp add: normalize_digits normalizeName_falsy)

text \<open>
  C6, as amended. normalizeName returns null for absent input and for the empty string.
  For every non-empty input it returns a string, and that string is empty exactly when
  the input holds no ASCII letter.
\<close>

theorem normalizeName_null_or_empty:
  "normalizeName None = None \<and> normalizeName (Some []) = None
   \<and> (x \<noteq> [] \<longrightarrow> (\<exists>r. normalizeName (Some x) = Some r
                         \<and> (r = [] \<longleftrightarrow> (\<forall>c\<in>set x. \<not> isAsciiLetter c))))"
proof -
  let ?w = "filter (\<lambda>part. length part > 0) (split_ws (toLowerCase (replaceNonLetters x)))"
  have "wordsOk ?w" using lowerWords_parts [of x] by (simp add: lowerWords_def)
  then have "join [32] ?w = [] \<longleftrightarrow> (\<forall>c\<in>set x. \<not> isAsciiLetter c)"
    using join_Nil_iff [of ?w] parts_Nil_iff [of x] by simp
  then show ?thesis using normalizeName_Some [of x] by (simp add: normalizeName_falsy)
qed

text \<open>C6 at "#42".\<close>

theorem normalizeName_null_or_empty_witness:
  "str ''#42'' \<noteq> [] \<and> \<not> (\<exists>c\<in>set (str ''#42''). isAsciiLetter c)
   \<and> normalizeName (Some (str ''#42'')) = Some []"
proof -
  have a: "str ''#42'' \<noteq> []" and b: "\<forall>c\<in>set (str ''#42''). \<not> isAsciiLetter c"
    by (simp_all add: str_def isAsciiLetter_def)
  show ?thesis
    using a b normalizeName_null_or_empty [of "str ''#42''"] by auto
qed

text \<open>C6 as stated fails at "123": no ASCII letter, and the result is not null.\<close>

theorem normalizeName_empty_counterexample:
  "\<not> (\<exists>c\<in>set (str ''123''). isAsciiLetter c)
   \<and> normalizeName (Some (str ''123'')) \<noteq> None"
  by (simp add: normalize_digits) (simp add: str_def isAsciiLetter_def)

text \<open>
  C7. For every input string, extractPhone strips all non-digit characters and then
  returns null if fewer than 10 digits remain, the first 12 digits if the digit string
  starts with 91 and has at least 12 digits, and the last 10 digits otherwise. In
  particular extractPhone("+91-98765-43210") is "919876543210",
  extractPhone("(212) 555-0100") is "2125550100" and extractPhone("12345") is null.
\<close>

theorem extractPhone_canonical:
  "extractPhone (Some s) = extractPhone_spec s
   \<and> extractPhone (Some (str ''+91-98765-43210'')) = Some (str ''919876543210'')
   \<and> extractPhone (Some (str ''(212) 555-0100'')) = Some (str ''2125550100'')
   \<and> extractPhone (Some (str ''12345'')) = None"
proof -
  have "extractPhone (Some (str ''+91-98765-43210'')) = Some (str ''919876543210'')"
    by (simp add: extractPhone_def str_def truthy_def isDigit_def)
  moreover have "extractPhone (Some (str ''(212) 555-0100'')) = Some (str ''2125550100'')"
    by (simp add: extractPhone_def str_def truthy_def isDigit_def)
  moreover have "extractPhone (Some (str ''12345'')) = None"
    by (simp add: extractPhone_def str_def truthy_def isDigit_def)
  ultimately show ?thesis using extractPhone_eq_spec [of s] by simp
qed

text \<open>C7 at "0 98765 43210": more than 10 digits, not starting with 91.\<close>

theorem extractPhone_canonical_witness:
  "extractPhone (Some (str ''0 98765 43210'')) = Some (str ''9876543210'')"
  using extractPhone_canonical [of "str ''0 98765 43210''"]
  by (simp add: extractPhone_spec_def str_def isDigit_def)

section \<open>The fold of one candidate\<close>

lemma mergeInto_names:
  "linkedin_name (mergeInto c d) = (if linkedin_name d \<noteq> NA then linkedin_name d else linkedin_name c)"
  "phonebook_name (mergeInto c d) = (if phonebook_name d \<noteq> NA then phonebook_name d else phonebook_name c)"
  "email_name (mergeInto c d) = (if email_name d \<noteq> NA then email_name d else email_name c)"
  by (simp_all add: mergeInto_def Let_def)

lemma mergeInto_keys:
  "email (mergeInto c d) = (if \<not> truthy (email c) \<and> truthy (email d) then email d else email c)"
  "phone (mergeInto c d) = (if \<not> truthy (phone c) \<and> truthy (phone d) then phone d else phone c)"
  by (simp_all add: mergeInto_def Let_def)

lemma lastWriter_Cons:
  "lastWriter own (v # vs) = lastWriter (if v \<noteq> NA then v else own) vs"
  by (simp add: lastWriter_def)

lemma foldl_mergeInto_names:
  "linkedin_name (foldl mergeInto c cs) = lastWriter (linkedin_name c) (map linkedin_name cs)"
  "phonebook_name (foldl mergeInto c cs) = lastWriter (phonebook_name c) (map phonebook_name cs)"
  "email_name (foldl mergeInto c cs) = lastWriter (email_name c) (map email_name cs)"
proof (induction cs arbitrary: c)
  case Nil
  { case 1 show ?case by (simp add: lastWriter_def) }
  { case 2 show ?case by (simp add: lastWriter_def) }
  { case 3 show ?case by (simp add: lastWriter_def) }
next
  case (Cons d cs)
  { case 1 show ?case by (simp add: Cons.IH(1) mergeInto_names lastWriter_Cons) }
  { case 2 show ?case by (simp add: Cons.IH(2) mergeInto_names lastWriter_Cons) }
  { case 3 show ?case by (simp add: Cons.IH(3) mergeInto_names lastWriter_Cons) }
qed

section \<open>The candidate loop\<close>

lemma checkCandidates_fold:
  "absorbs xs cn cur p j \<Longrightarrow>
     checkCandidates xs cn (j # js) (cur, p, mc)
       = checkCandidates xs cn js (mergeInto cur (xs ! j), insert j p, mc + 1)"
  by (simp add: absorbs_def)

lemma checkCandidates_skip:
  "\<not> absorbs xs cn cur p j \<Longrightarrow>
     checkCandidates xs cn (j # js) (cur, p, mc) = checkCandidates xs cn js (cur, p, mc)"
  by (auto simp: absorbs_def)

lemma absorbed_fold:
  "absorbs xs cn cur p j \<Longrightarrow>
     absorbedCandidates xs cn (j # js) (cur, p)
       = j # absorbedCandidates xs cn js (mergeInto cur (xs ! j), insert j p)"
  by (simp add: absorbs_def)

lemma absorbed_skip:
  "\<not> absorbs xs cn cur p j \<Longrightarrow>
     absorbedCandidates xs cn (j # js) (cur, p) = absorbedCandidates xs cn js (cur, p)"
  by (auto simp: absorbs_def)

declare checkCandidates.simps(2) [simp del]

declare absorbedCandidates.simps(2) [simp del]

lemma checkCandidates_absorbed:
  "checkCandidates xs cn cands (cur, p, mc) =
     (foldl mergeInto cur (map ((!) xs) (absorbedCandidates xs cn cands (cur, p))),
      p \<union> set (absorbedCandidates xs cn cands (cur, p)),
      mc + length (absorbedCandidates xs cn cands (cur, p)))"
proof (induction cands arbitrary: cur p mc)
  case Nil
  show ?case by simp
next
  case (Cons j js)
  show ?case
  proof (cases "absorbs xs cn cur p j")
    case True
    show ?thesis
      unfolding checkCandidates_fold [OF True] absorbed_fold [OF True] Cons.IH by simp
  next
    case False
    show ?thesis
      unfolding checkCandidates_skip [OF False] absorbed_skip [OF False] Cons.IH ..
  qed
qed

lemma absorbed_member:
  "j \<in> set (absorbedCandidates xs cn cands (cur, p)) \<Longrightarrow>
     j \<in> set cands \<and> j \<notin> p \<and> truthy (getNameForComparison (xs ! j))"
proof (induction cands arbitrary: cur p)
  case Nil
  then show ?case by simp
next
  case (Cons k ks)
  show ?case
  proof (cases "absorbs xs cn cur p k")
    case True
    from Cons.prems have "j = k \<or> j \<in> set (absorbedCandidates xs cn ks (mergeInto cur (xs ! k), insert k p))"
      unfolding absorbed_fold [OF True] by simp
    then show ?thesis
    proof
      assume "j = k"
      then show ?thesis using True by (simp add: absorbs_def)
    next
      assume "j \<in> set (absorbedCandidates xs cn ks (mergeInto cur (xs ! k), insert k p))"
      from Cons.IH [OF this] show ?thesis by simp
    qed
  next
    case False
    from Cons.prems have "j \<in> set (absorbedCandidates xs cn ks (cur, p))"
      unfolding absorbed_skip [OF False] .
    from Cons.IH [OF this] show ?thesis by simp
  qed
qed

lemma absorbed_distinct: "distinct (absorbedCandidates xs cn cands (cur, p))"
proof (induction cands arbitrary: cur p)
  case Nil
  show ?case by simp
next
  case (Cons k ks)
  show ?case
  proof (cases "absorbs xs cn cur p k")
    case True
    have "k \<notin> set (absorbedCandidates xs cn ks (mergeInto cur (xs ! k), insert k p))"
      using absorbed_member [of k xs cn ks "mergeInto cur (xs ! k)" "insert k p"] by blast
    then show ?thesis unfolding absorbed_fold [OF True] using Cons.IH by simp
  next
    case False
    show ?thesis unfolding absorbed_skip [OF False] by (rule Cons.IH)
  qed
qed

lemma mergeInto_keeps_email:
  assumes "\<forall>m\<in>M. truthy (email (xs ! m)) \<longrightarrow> email (xs ! m) = email cur"
    and "\<not> conflicting cur (xs ! j)"
  shows "\<forall>m\<in>insert j M. truthy (email (xs ! m)) \<longrightarrow> email (xs ! m) = email (mergeInto cur (xs ! j))"
proof
  fix m assume m: "m \<in> insert j M"
  show "truthy (email (xs ! m)) \<longrightarrow> email (xs ! m) = email (mergeInto cur (xs ! j))"
  proof
    assume t: "truthy (email (xs ! m))"
    show "email (xs ! m) = email (mergeInto cur (xs ! j))"
    proof (cases "truthy (email cur)")
      case True
      then have e: "email (mergeInto cur (xs ! j)) = email cur" by (simp add: mergeInto_keys)
      show ?thesis
      proof (cases "m = j")
        case mj: True
        then show ?thesis using t True assms(2) e by (auto simp: conflicting_def)
      next
        case False
        then show ?thesis using m t assms(1) e by auto
      qed
    next
      case False
      have "m \<notin> M" using assms(1) t False by auto
      then have "m = j" using m by simp
      then show ?thesis using t False by (simp add: mergeInto_keys)
    qed
  qed
qed

lemma mergeInto_keeps_phone:
  assumes "\<forall>m\<in>M. truthy (phone (xs ! m)) \<longrightarrow> phone (xs ! m) = phone cur"
    and "\<not> conflicting cur (xs ! j)"
  shows "\<forall>m\<in>insert j M. truthy (phone (xs ! m)) \<longrightarrow> phone (xs ! m) = phone (mergeInto cur (xs ! j))"
proof
  fix m assume m: "m \<in> insert j M"
  show "truthy (phone (xs ! m)) \<longrightarrow> phone (xs ! m) = phone (mergeInto cur (xs ! j))"
  proof
    assume t: "truthy (phone (xs ! m))"
    show "phone (xs ! m) = phone (mergeInto cur (xs ! j))"
    proof (cases "truthy (phone cur)")
      case True
      then have e: "phone (mergeInto cur (xs ! j)) = phone cur" by (simp add: mergeInto_keys)
      show ?thesis
      proof (cases "m = j")
        case mj: True
        then show ?thesis using t True assms(2) e by (auto simp: conflicting_def)
      next
        case False
        then show ?thesis using m t assms(1) e by auto
      qed
    next
      case False
      have "m \<notin> M" using assms(1) t False by auto
      then have "m = j" using m by simp
      then show ?thesis using t False by (simp add: mergeInto_keys)
    qed
  qed
qed

lemma absorbed_keeps_email:
  assumes "\<forall>m\<in>M. truthy (email (xs ! m)) \<longrightarrow> email (xs ! m) = email cur"
  shows "\<forall>m\<in>M \<union> set (absorbedCandidates xs cn cands (cur, p)).
           truthy (email (xs ! m)) \<longrightarrow>
           email (xs ! m)
             = email (foldl mergeInto cur (map ((!) xs) (absorbedCandidates xs cn cands (cur, p))))"
  using assms
proof (induction cands arbitrary: cur p M)
  case Nil
  then show ?case by simp
next
  case (Cons j js)
  show ?case
  proof (cases "absorbs xs cn cur p j")
    case False
    show ?thesis unfolding absorbed_skip [OF False] by (rule Cons.IH [OF Cons.prems])
  next
    case True
    then have nc: "\<not> conflicting cur (xs ! j)" by (simp add: absorbs_def)
    show ?thesis
      unfolding absorbed_fold [OF True]
      using Cons.IH [OF mergeInto_keeps_email [OF Cons.prems nc], of "insert j p"] by simp
  qed
qed

lemma absorbed_keeps_phone:
  assumes "\<forall>m\<in>M. truthy (phone (xs ! m)) \<longrightarrow> phone (xs ! m) = phone cur"
  shows "\<forall>m\<in>M \<union> set (absorbedCandidates xs cn cands (cur, p)).
           truthy (phone (xs ! m)) \<longrightarrow>
           phone (xs ! m)
             = phone (foldl mergeInto cur (map ((!) xs) (absorbedCandidates xs cn cands (cur, p))))"
  using assms
proof (induction cands arbitrary: cur p M)
  case Nil
  then show ?case by simp
next
  case (Cons j js)
  show ?case
  proof (cases "absorbs xs cn cur p j")
    case False
    show ?thesis unfolding absorbed_skip [OF False] by (rule Cons.IH [OF Cons.prems])
  next
    case True
    then have nc: "\<not> conflicting cur (xs ! j)" by (simp add: absorbs_def)
    show ?thesis
      unfolding absorbed_fold [OF True]
      using Cons.IH [OF mergeInto_keeps_phone [OF Cons.prems nc], of "insert j p"] by simp
  qed
qed

section \<open>The name index\<close>

lemma postings_indexWords:
  "set (postings (indexWords i ws m) w) = set (postings m w) \<union> (if w \<in> set ws then {i} else {})"
  by (induction ws arbitrary: m) (auto simp: postings_def)

lemma buildIndex_step:
  "buildIndex (x # xs) k m = buildIndex xs (Suc k)
     (if truthy (getNameForComparison x)
      then indexWords k (significantWords (the (normalizeName (getNameForComparison x)))) m
      else m)"
  by simp

lemma postings_step:
  "e \<in> set (postings (if truthy (getNameForComparison x)
      then indexWords k (significantWords (the (normalizeName (getNameForComparison x)))) m
      else m) w) \<longleftrightarrow> e \<in> set (postings m w) \<or> (e = k \<and> hasWord w x)"
  by (simp add: postings_indexWords hasWord_def)

lemma postings_buildIndex:
  "e \<in> set (postings (buildIndex xs k m) w) \<longleftrightarrow>
     e \<in> set (postings m w) \<or> (k \<le> e \<and> e - k < length xs \<and> hasWord w (xs ! (e - k)))"
proof (induction xs arbitrary: k m)
  case Nil
  then show ?case by simp
next
  case (Cons x xs)
  have "e \<in> set (postings (buildIndex (x # xs) k m) w) \<longleftrightarrow>
          (e \<in> set (postings m w) \<or> (e = k \<and> hasWord w x))
          \<or> (Suc k \<le> e \<and> e - Suc k < length xs \<and> hasWord w (xs ! (e - Suc k)))"
    unfolding buildIndex_step Cons.IH postings_step ..
  also have "\<dots> \<longleftrightarrow> e \<in> set (postings m w)
          \<or> (k \<le> e \<and> e - k < length (x # xs) \<and> hasWord w ((x # xs) ! (e - k)))"
  proof (cases "e = k")
    case True
    then show ?thesis by simp
  next
    case False
    show ?thesis
    proof (cases "k \<le> e")
      case True
      then obtain d where d: "e = Suc k + d" using False by (metis add_Suc le_neq_implies_less less_iff_Suc_add)
      show ?thesis by (simp add: d)
    next
      case notle: False
      then show ?thesis by simp
    qed
  qed
  finally show ?case .
qed

declare buildIndex.simps [simp del]

lemma postings_empty: "postings Map.empty w = []"
  by (simp add: postings_def)

lemma addEntries_set:
  "set (addEntries i p es cands) = set cands \<union> {e \<in> set es. e \<noteq> i \<and> e \<notin> p}"
  by (induction es arbitrary: cands) auto


lemma collectCandidates_set:
  "set (collectCandidates idx i p ws cands)
     = set cands \<union> {e. \<exists>w\<in>set ws. e \<in> set (postings idx w) \<and> e \<noteq> i \<and> e \<notin> p}"
  by (induction ws arbitrary: cands) (auto simp: addEntries_set postings_def split: option.splits)


section \<open>The main loop\<close>

lemma focusedLoop_skip:
  "i \<in> p \<Longrightarrow> focusedLoop xs idx (i # is) (m, p, mc) = focusedLoop xs idx is (m, p, mc)"
  by simp

lemma focusedLoop_nameless:
  "i \<notin> p \<Longrightarrow> \<not> truthy (getNameForComparison (xs ! i)) \<Longrightarrow>
     focusedLoop xs idx (i # is) (m, p, mc) = focusedLoop xs idx is (m @ [xs ! i], insert i p, mc)"
  by simp

lemma focusedLoop_named:
  "i \<notin> p \<Longrightarrow> truthy (getNameForComparison (xs ! i)) \<Longrightarrow>
     focusedLoop xs idx (i # is) (m, p, mc)
       = focusedLoop xs idx is
           (m @ [foldGroup xs (i, absorbedOf xs idx i p)],
            insert i p \<union> set (absorbedOf xs idx i p), mc + length (absorbedOf xs idx i p))"
  by (simp add: Let_def checkCandidates_absorbed foldGroup_def absorbedOf_def)

lemma groupsLoop_skip:
  "i \<in> p \<Longrightarrow> groupsLoop xs idx (i # is) p = groupsLoop xs idx is p"
  by simp

lemma groupsLoop_nameless:
  "i \<notin> p \<Longrightarrow> \<not> truthy (getNameForComparison (xs ! i)) \<Longrightarrow>
     groupsLoop xs idx (i # is) p = (i, []) # groupsLoop xs idx is (insert i p)"
  by simp

lemma groupsLoop_named:
  "i \<notin> p \<Longrightarrow> truthy (getNameForComparison (xs ! i)) \<Longrightarrow>
     groupsLoop xs idx (i # is) p
       = (i, absorbedOf xs idx i p)
         # groupsLoop xs idx is (insert i p \<union> set (absorbedOf xs idx i p))"
  by (simp add: Let_def absorbedOf_def)

declare focusedLoop.simps(2) [simp del]

declare groupsLoop.simps(2) [simp del]

lemma members_Nil: "members [] = {}"
  by (simp add: members_def)

lemma members_Cons: "members (g # gs) = insert (fst g) (set (snd g)) \<union> members gs"
  by (simp add: members_def)

lemma absorbedCount_Nil: "absorbedCount [] = 0"
  by (simp add: absorbedCount_def)

lemma absorbedCount_Cons: "absorbedCount (g # gs) = length (snd g) + absorbedCount gs"
  by (simp add: absorbedCount_def)

lemma focusedLoop_groups:
  "focusedLoop xs idx is (m, p, mc) =
     (m @ map (foldGroup xs) (groupsLoop xs idx is p),
      p \<union> members (groupsLoop xs idx is p),
      mc + absorbedCount (groupsLoop xs idx is p))"
proof (induction "is" arbitrary: m p mc)
  case Nil
  show ?case by (simp add: members_Nil absorbedCount_Nil)
next
  case (Cons i "is")
  show ?case
  proof (cases "i \<in> p")
    case True
    show ?thesis unfolding focusedLoop_skip [OF True] groupsLoop_skip [OF True] by (rule Cons.IH)
  next
    case False
    show ?thesis
    proof (cases "truthy (getNameForComparison (xs ! i))")
      case nameless: False
      show ?thesis
        unfolding focusedLoop_nameless [OF False nameless] groupsLoop_nameless [OF False nameless]
          Cons.IH
        by (simp add: members_Cons absorbedCount_Cons foldGroup_def)
    next
      case True
      show ?thesis
        unfolding focusedLoop_named [OF False True] groupsLoop_named [OF False True] Cons.IH
        by (simp add: members_Cons absorbedCount_Cons Un_assoc)
    qed
  qed
qed

lemma absorbedOf_member:
  assumes "j \<in> set (absorbedOf xs idx i p)"
  shows "j \<noteq> i \<and> j \<notin> p \<and> truthy (getNameForComparison (xs ! j)) \<and> (\<exists>w. j \<in> set (postings idx w))"
proof -
  from assms have "j \<in> set (collectCandidates idx i (insert i p)
          (significantWords (the (normalizeName (getNameForComparison (xs ! i))))) [])
      \<and> j \<notin> insert i p \<and> truthy (getNameForComparison (xs ! j))"
    unfolding absorbedOf_def by (rule absorbed_member)
  then show ?thesis by (auto simp: collectCandidates_set)
qed

lemma absorbedOf_distinct: "distinct (absorbedOf xs idx i p)"
  unfolding absorbedOf_def by (rule absorbed_distinct)


lemma groupsLoop_shape:
  "g \<in> set (groupsLoop xs idx is p) \<Longrightarrow>
     fst g \<in> set is \<and> fst g \<notin> p
     \<and> (snd g = [] \<or> (truthy (getNameForComparison (xs ! fst g))
                       \<and> (\<exists>q. p \<subseteq> q \<and> snd g = absorbedOf xs idx (fst g) q)))"
proof (induction "is" arbitrary: p)
  case Nil
  then show ?case by simp
next
  case (Cons i "is")
  show ?case
  proof (cases "i \<in> p")
    case True
    from Cons.prems have "g \<in> set (groupsLoop xs idx is p)"
      unfolding groupsLoop_skip [OF True] .
    from Cons.IH [OF this] show ?thesis by auto
  next
    case False
    show ?thesis
    proof (cases "truthy (getNameForComparison (xs ! i))")
      case nameless: False
      from Cons.prems have "g = (i, []) \<or> g \<in> set (groupsLoop xs idx is (insert i p))"
        unfolding groupsLoop_nameless [OF False nameless] by simp
      then show ?thesis
      proof
        assume "g = (i, [])"
        then show ?thesis using False by simp
      next
        assume "g \<in> set (groupsLoop xs idx is (insert i p))"
        from Cons.IH [OF this] show ?thesis by auto
      qed
    next
      case True
      from Cons.prems have "g = (i, absorbedOf xs idx i p)
          \<or> g \<in> set (groupsLoop xs idx is (insert i p \<union> set (absorbedOf xs idx i p)))"
        unfolding groupsLoop_named [OF False True] by simp
      then show ?thesis
      proof
        assume "g = (i, absorbedOf xs idx i p)"
        then show ?thesis using False True by auto
      next
        assume "g \<in> set (groupsLoop xs idx is (insert i p \<union> set (absorbedOf xs idx i p)))"
        from Cons.IH [OF this] show ?thesis by auto
      qed
    qed
  qed
qed

lemma groupsLoop_covers: "set is \<subseteq> p \<union> members (groupsLoop xs idx is p)"
proof (induction "is" arbitrary: p)
  case Nil
  show ?case by simp
next
  case (Cons i "is")
  show ?case
  proof (cases "i \<in> p")
    case True
    show ?thesis unfolding groupsLoop_skip [OF True] using Cons.IH [of p] True by auto
  next
    case False
    show ?thesis
    proof (cases "truthy (getNameForComparison (xs ! i))")
      case nameless: False
      show ?thesis unfolding groupsLoop_nameless [OF False nameless]
        using Cons.IH [of "insert i p"] by (auto simp: members_Cons)
    next
      case True
      show ?thesis unfolding groupsLoop_named [OF False True]
        using Cons.IH [of "insert i p \<union> set (absorbedOf xs idx i p)"] by (auto simp: members_Cons)
    qed
  qed
qed

lemma groupsLoop_bounded:
  "members (groupsLoop xs idx is p) \<subseteq> set is \<union> {j. \<exists>w. j \<in> set (postings idx w)}"
proof (induction "is" arbitrary: p)
  case Nil
  show ?case by (simp add: members_Nil)
next
  case (Cons i "is")
  show ?case
  proof (cases "i \<in> p")
    case True
    show ?thesis unfolding groupsLoop_skip [OF True] using Cons.IH [of p] by auto
  next
    case False
    show ?thesis
    proof (cases "truthy (getNameForComparison (xs ! i))")
      case nameless: False
      show ?thesis unfolding groupsLoop_nameless [OF False nameless]
        using Cons.IH [of "insert i p"] by (auto simp: members_Cons)
    next
      case True
      show ?thesis unfolding groupsLoop_named [OF False True]
        using Cons.IH [of "insert i p \<union> set (absorbedOf xs idx i p)"]
          absorbedOf_member [of _ xs idx i p]
        by (auto simp: members_Cons)
    qed
  qed
qed

lemma groupsLoop_card:
  "finite p \<Longrightarrow>
     finite (p \<union> members (groupsLoop xs idx is p))
     \<and> card (p \<union> members (groupsLoop xs idx is p))
         = card p + length (groupsLoop xs idx is p) + absorbedCount (groupsLoop xs idx is p)"
proof (induction "is" arbitrary: p)
  case Nil
  then show ?case by (simp add: members_Nil absorbedCount_Nil)
next
  case (Cons i "is")
  show ?case
  proof (cases "i \<in> p")
    case True
    show ?thesis unfolding groupsLoop_skip [OF True] by (rule Cons.IH [OF Cons.prems])
  next
    case False
    show ?thesis
    proof (cases "truthy (getNameForComparison (xs ! i))")
      case nameless: False
      have f: "finite (insert i p)" using Cons.prems by simp
      have c: "card (insert i p) = card p + 1" using Cons.prems False by simp
      have u: "p \<union> members ((i, []) # groupsLoop xs idx is (insert i p))
          = insert i p \<union> members (groupsLoop xs idx is (insert i p))"
        by (auto simp: members_Cons)
      show ?thesis
        unfolding groupsLoop_nameless [OF False nameless] u
        using Cons.IH [OF f] c by (simp add: absorbedCount_Cons)
    next
      case True
      let ?js = "absorbedOf xs idx i p"
      let ?q = "insert i p \<union> set ?js"
      have f: "finite ?q" using Cons.prems by simp
      have d: "insert i p \<inter> set ?js = {}" using absorbedOf_member [of _ xs idx i p] by auto
      have fi: "finite (insert i p)" using Cons.prems by simp
      have "card ?q = card (insert i p) + card (set ?js)"
        by (rule card_Un_disjoint [OF fi _ d]) simp
      then have c: "card ?q = card p + 1 + length ?js"
        using Cons.prems False absorbedOf_distinct [of xs idx i p] by (simp add: distinct_card)
      have u: "p \<union> members ((i, ?js) # groupsLoop xs idx is ?q)
          = ?q \<union> members (groupsLoop xs idx is ?q)"
        by (auto simp: members_Cons)
      show ?thesis
        unfolding groupsLoop_named [OF False True] u
        using Cons.IH [OF f] c by (simp add: absorbedCount_Cons)
    qed
  qed
qed

section \<open>A whole run\<close>

lemma posting_bound:
  "j \<in> set (postings (buildIndex xs 0 Map.empty) w) \<Longrightarrow> j < length xs"
  by (simp add: postings_buildIndex postings_empty)

lemma run_output:
  "mergeSimilarContactsFocused xs = map (foldGroup xs) (mergeGroups xs)"
  by (simp add: mergeSimilarContactsFocused_def focusedRun_def mergeGroups_def focusedLoop_groups)

lemma run_mergeCount: "finalMergeCount xs = absorbedCount (mergeGroups xs)"
  by (simp add: finalMergeCount_def focusedRun_def mergeGroups_def focusedLoop_groups)

lemma run_members: "members (mergeGroups xs) = {0 ..< length xs}"
proof
  show "members (mergeGroups xs) \<subseteq> {0 ..< length xs}"
    using groupsLoop_bounded [of xs "buildIndex xs 0 Map.empty" "[0 ..< length xs]" "{}"]
      posting_bound [of _ xs]
    unfolding mergeGroups_def by auto
next
  show "{0 ..< length xs} \<subseteq> members (mergeGroups xs)"
    using groupsLoop_covers [of "[0 ..< length xs]" "{}" xs "buildIndex xs 0 Map.empty"]
    unfolding mergeGroups_def by simp
qed

lemma run_count: "length (mergeGroups xs) + absorbedCount (mergeGroups xs) = length xs"
proof -
  have "card ({} \<union> members (mergeGroups xs))
      = card ({} :: nat set) + length (mergeGroups xs) + absorbedCount (mergeGroups xs)"
    using groupsLoop_card [of "{}" xs "buildIndex xs 0 Map.empty" "[0 ..< length xs]"]
    unfolding mergeGroups_def by blast
  then show ?thesis by (simp add: run_members)
qed

lemma group_shape:
  assumes "g \<in> set (mergeGroups xs)"
  shows "snd g = [] \<or> (truthy (getNameForComparison (xs ! fst g))
            \<and> (\<exists>q. snd g = absorbedOf xs (buildIndex xs 0 Map.empty) (fst g) q))"
  using groupsLoop_shape [OF assms [unfolded mergeGroups_def]] by blast

lemma group_absorbed_named:
  assumes "g \<in> set (mergeGroups xs)" "j \<in> set (snd g)"
  shows "truthy (getNameForComparison (xs ! j))"
proof -
  from group_shape [OF assms(1)] assms(2)
  obtain q where "snd g = absorbedOf xs (buildIndex xs 0 Map.empty) (fst g) q" by auto
  then show ?thesis using absorbedOf_member [of j xs _ "fst g" q] assms(2) by simp
qed

lemma group_keys:
  assumes "g \<in> set (mergeGroups xs)" "a \<in> insert (fst g) (set (snd g))"
  shows "truthy (email (xs ! a)) \<longrightarrow> email (xs ! a) = email (foldGroup xs g)"
    and "truthy (phone (xs ! a)) \<longrightarrow> phone (xs ! a) = phone (foldGroup xs g)"
proof -
  have e0: "\<forall>m\<in>{fst g}. truthy (email (xs ! m)) \<longrightarrow> email (xs ! m) = email (xs ! fst g)" by simp
  have p0: "\<forall>m\<in>{fst g}. truthy (phone (xs ! m)) \<longrightarrow> phone (xs ! m) = phone (xs ! fst g)" by simp
  from group_shape [OF assms(1)]
  have "(truthy (email (xs ! a)) \<longrightarrow> email (xs ! a) = email (foldGroup xs g))
      \<and> (truthy (phone (xs ! a)) \<longrightarrow> phone (xs ! a) = phone (foldGroup xs g))"
  proof
    assume "snd g = []"
    then show ?thesis using assms(2) by (simp add: foldGroup_def)
  next
    assume "truthy (getNameForComparison (xs ! fst g))
            \<and> (\<exists>q. snd g = absorbedOf xs (buildIndex xs 0 Map.empty) (fst g) q)"
    then obtain q where q: "snd g = absorbedOf xs (buildIndex xs 0 Map.empty) (fst g) q" by blast
    have a: "a \<in> {fst g} \<union> set (snd g)" using assms(2) by simp
    show ?thesis
      using absorbed_keeps_email [OF e0] absorbed_keeps_phone [OF p0] a
      unfolding q absorbedOf_def foldGroup_def by blast
  qed
  then show "truthy (email (xs ! a)) \<longrightarrow> email (xs ! a) = email (foldGroup xs g)"
    and "truthy (phone (xs ! a)) \<longrightarrow> phone (xs ! a) = phone (foldGroup xs g)" by simp_all
qed

section \<open>Evaluation on the example records\<close>

lemma str_eq_iff: "str a = str b \<longleftrightarrow> a = b"
  unfolding str_def by (rule inj_map_eq_map) (rule inj_of_char)

lemma str_Nil_iff: "str a = [] \<longleftrightarrow> a = []"
  by (simp add: str_def)

lemma truthy_str: "truthy (Some (str a)) \<longleftrightarrow> a \<noteq> []"
  by (simp add: truthy_def str_Nil_iff)

lemma truthy_None: "\<not> truthy None"
  by (simp add: truthy_def)

lemma name_johnSmith: "getNameForComparison johnSmith = Some (str ''John Smith'')"
  by (simp add: getNameForComparison_def johnSmith_def NA_def str_eq_iff)

lemma name_johnSmyth: "getNameForComparison johnSmyth = Some (str ''John Smyth'')"
  by (simp add: getNameForComparison_def johnSmyth_def NA_def str_eq_iff)

lemma name_nameless: "getNameForComparison nameless = None"
  by (simp add: getNameForComparison_def nameless_def)

lemma normalize_johnSmith: "normalizeName (Some (str ''John Smith'')) = Some (str ''john smith'')"
  by (simp add: string_eval)

lemma normalize_johnSmyth: "normalizeName (Some (str ''John Smyth'')) = Some (str ''john smyth'')"
  by (simp add: string_eval)

lemma words_johnSmith: "significantWords (str ''john smith'') = [str ''john'', str ''smith'']"
  by (simp add: significantWords_def str_def isWhiteSpace_def split_ws.simps)

lemma words_johnSmyth: "significantWords (str ''john smyth'') = [str ''john'', str ''smyth'']"
  by (simp add: significantWords_def str_def isWhiteSpace_def split_ws.simps)

lemma similarity_john_john: "getLevenshteinSimilarity (str ''john'') (str ''john'') = 1"
  by (simp add: str_def levenshteinDistance_def getLevenshteinSimilarity_def Let_def)

lemma similarity_john_smyth: "getLevenshteinSimilarity (str ''john'') (str ''smyth'') = 0"
  by (simp add: str_def levenshteinDistance_def getLevenshteinSimilarity_def Let_def)

lemma similarity_smith_john: "getLevenshteinSimilarity (str ''smith'') (str ''john'') = 0"
  by (simp add: str_def levenshteinDistance_def getLevenshteinSimilarity_def Let_def)

lemma similarity_smith_smyth: "getLevenshteinSimilarity (str ''smith'') (str ''smyth'') = 4 / 5"
  by (simp add: str_def levenshteinDistance_def getLevenshteinSimilarity_def Let_def)

lemma similar_johnSmith_johnSmyth:
  "areNamesSimilar (Some (str ''john smith'')) (Some (str ''john smyth'')) (7 / 10)"
  by (simp add: areNamesSimilar_def similarity_def truthy_str str_eq_iff words_johnSmith
        words_johnSmyth similarity_john_john similarity_john_smyth similarity_smith_john
        similarity_smith_smyth)

lemma no_conflict_johns: "\<not> conflicting johnSmith johnSmyth"
  by (simp add: conflicting_def johnSmith_def johnSmyth_def truthy_def)

lemmas johns_eval = name_johnSmith name_johnSmyth name_nameless normalize_johnSmith
  normalize_johnSmyth words_johnSmith words_johnSmyth similar_johnSmith_johnSmyth
  no_conflict_johns truthy_str truthy_None str_eq_iff

lemma groups_johns: "mergeGroups [johnSmith, johnSmyth] = [(0, [1])]"
  by (simp add: mergeGroups_def buildIndex.simps groupsLoop.simps absorbedCandidates.simps
        johns_eval)

lemma groups_johns_nameless: "mergeGroups [johnSmith, nameless, johnSmyth] = [(0, [2]), (1, [])]"
  by (simp add: mergeGroups_def buildIndex.simps groupsLoop.simps absorbedCandidates.simps
        johns_eval)

lemma fold_johns:
  "mergeInto johnSmith johnSmyth
     = johnSmith\<lparr>linkedin_name := str ''John Smyth'', phone := Some (str ''9876543210'')\<rparr>"
  by (simp add: mergeInto_def johnSmith_def johnSmyth_def NA_def str_eq_iff truthy_def str_Nil_iff)

section \<open>Claims about the merge pass\<close>

text \<open>
  C2. For every input candidate list, the name-similarity merge pass satisfies the
  conservation law: the number of emitted output records plus the number of absorbed
  candidates equals the number of input candidates. The counter \<open>mergeCount\<close> of the
  source is the number of absorbed candidates of the run.
\<close>

theorem merge_conservation:
  "length (mergeSimilarContactsFocused xs) + finalMergeCount xs = length xs
   \<and> finalMergeCount xs = absorbedCount (mergeGroups xs)"
  using run_count [of xs] by (simp add: run_output run_mergeCount)

text \<open>C2 on the two records of John Smith and John Smyth: one output record, one
  absorbed candidate.\<close>

theorem merge_conservation_witness:
  "length (mergeSimilarContactsFocused [johnSmith, johnSmyth]) = 1
   \<and> finalMergeCount [johnSmith, johnSmyth] = 1"
  using merge_conservation [of "[johnSmith, johnSmyth]"]
  by (simp add: groups_johns absorbedCount_def)

text \<open>
  C3. The name-similarity merge pass never folds together two candidates carrying
  different emails, nor two candidates carrying different phones, however similar their
  names: every output record is the fold of a group of inputs, and any two members of a
  group that both carry an email carry the same email, and likewise for the phone. A
  record carries an identifier when the field passes the source's own test for presence
  (\<open>truthy\<close>: not null and not the empty string); the identifiers the exact-key phase
  hands over are null or non-empty.
\<close>

theorem no_merge_across_conflicting_keys:
  assumes "g \<in> set (mergeGroups xs)"
    and "a \<in> insert (fst g) (set (snd g))" and "b \<in> insert (fst g) (set (snd g))"
  shows "mergeSimilarContactsFocused xs = map (foldGroup xs) (mergeGroups xs)
    \<and> (truthy (email (xs ! a)) \<and> truthy (email (xs ! b)) \<longrightarrow> email (xs ! a) = email (xs ! b))
    \<and> (truthy (phone (xs ! a)) \<and> truthy (phone (xs ! b)) \<longrightarrow> phone (xs ! a) = phone (xs ! b))"
proof -
  have "truthy (email (xs ! a)) \<and> truthy (email (xs ! b)) \<longrightarrow> email (xs ! a) = email (xs ! b)"
  proof
    assume t: "truthy (email (xs ! a)) \<and> truthy (email (xs ! b))"
    have "email (xs ! a) = email (foldGroup xs g)"
      using group_keys(1) [OF assms(1) assms(2)] t by blast
    moreover have "email (xs ! b) = email (foldGroup xs g)"
      using group_keys(1) [OF assms(1) assms(3)] t by blast
    ultimately show "email (xs ! a) = email (xs ! b)" by (simp only:)
  qed
  moreover
  have "truthy (phone (xs ! a)) \<and> truthy (phone (xs ! b)) \<longrightarrow> phone (xs ! a) = phone (xs ! b)"
  proof
    assume t: "truthy (phone (xs ! a)) \<and> truthy (phone (xs ! b))"
    have "phone (xs ! a) = phone (foldGroup xs g)"
      using group_keys(2) [OF assms(1) assms(2)] t by blast
    moreover have "phone (xs ! b) = phone (foldGroup xs g)"
      using group_keys(2) [OF assms(1) assms(3)] t by blast
    ultimately show "phone (xs ! a) = phone (xs ! b)" by (simp only:)
  qed
  ultimately show ?thesis using run_output [of xs] by blast
qed

text \<open>C3 on the same two records: they form one group and carry the same email.\<close>

theorem no_merge_across_conflicting_keys_witness:
  "(0, [1]) \<in> set (mergeGroups [johnSmith, johnSmyth])
   \<and> truthy (email ([johnSmith, johnSmyth] ! 0)) \<and> truthy (email ([johnSmith, johnSmyth] ! 1))
   \<and> email ([johnSmith, johnSmyth] ! 0) = email ([johnSmith, johnSmyth] ! 1)"
proof -
  have g: "(0, [1]) \<in> set (mergeGroups [johnSmith, johnSmyth])"
    by (simp add: groups_johns)
  have a: "0 \<in> insert (fst (0 :: nat, [1 :: nat])) (set (snd (0 :: nat, [1 :: nat])))"
    and b: "1 \<in> insert (fst (0 :: nat, [1 :: nat])) (set (snd (0 :: nat, [1 :: nat])))"
    by simp_all
  have t: "truthy (email ([johnSmith, johnSmyth] ! 0)) \<and> truthy (email ([johnSmith, johnSmyth] ! 1))"
    by (simp add: johnSmith_def johnSmyth_def truthy_str)
  show ?thesis
    using no_merge_across_conflicting_keys [OF g a b] g t by blast
qed

text \<open>
  C10. A candidate whose three name slots are all the sentinel N/A is never absorbed by
  another candidate and never absorbs any candidate during the similarity-merge pass: it
  forms a group of its own, no group holds it as an absorbed member, and the output
  record of its group is the candidate exactly as it entered, for every input list.
\<close>

theorem nameless_record_untouched:
  assumes "i < length xs"
    and "linkedin_name (xs ! i) = NA" and "phonebook_name (xs ! i) = NA"
    and "email_name (xs ! i) = NA"
  shows "(\<exists>k<length (mergeGroups xs). mergeGroups xs ! k = (i, [])
            \<and> mergeSimilarContactsFocused xs ! k = xs ! i)
    \<and> (\<forall>g\<in>set (mergeGroups xs). i \<notin> set (snd g))"
proof -
  have nameless: "\<not> truthy (getNameForComparison (xs ! i))"
    using assms(2-4) by (simp add: getNameForComparison_def truthy_def)
  have never: "\<forall>g\<in>set (mergeGroups xs). i \<notin> set (snd g)"
    using group_absorbed_named [of _ xs i] nameless by blast
  have "i \<in> members (mergeGroups xs)" using assms(1) by (simp add: run_members)
  then obtain g where g: "g \<in> set (mergeGroups xs)" and "i \<in> insert (fst g) (set (snd g))"
    unfolding members_def by blast
  then have i: "fst g = i" using never by auto
  have "snd g = []" using group_shape [OF g] nameless i by auto
  then have "(i, []) \<in> set (mergeGroups xs)" using g i by (metis prod.collapse)
  then obtain k where k: "k < length (mergeGroups xs)" "mergeGroups xs ! k = (i, [])"
    by (auto simp: in_set_conv_nth)
  have "mergeSimilarContactsFocused xs ! k = xs ! i"
    using k by (simp add: run_output foldGroup_def)
  then show ?thesis using k never by blast
qed

text \<open>C10 on a list with a nameless record between the two others.\<close>

theorem nameless_record_untouched_witness:
  "mergeGroups [johnSmith, nameless, johnSmyth] = [(0, [2]), (1, [])]
   \<and> mergeSimilarContactsFocused [johnSmith, nameless, johnSmyth] ! 1 = nameless
   \<and> \<not> (\<exists>g\<in>set (mergeGroups [johnSmith, nameless, johnSmyth]). 1 \<in> set (snd g))"
proof -
  have i: "1 < length [johnSmith, nameless, johnSmyth]"
    by simp
  have n: "linkedin_name ([johnSmith, nameless, johnSmyth] ! 1) = NA"
    "phonebook_name ([johnSmith, nameless, johnSmyth] ! 1) = NA"
    "email_name ([johnSmith, nameless, johnSmyth] ! 1) = NA"
    by (simp_all add: nameless_def)
  have "mergeSimilarContactsFocused [johnSmith, nameless, johnSmyth] ! 1 = nameless"
    by (simp add: run_output groups_johns_nameless foldGroup_def)
  then show ?thesis
    using nameless_record_untouched [OF i n] groups_johns_nameless by blast
qed

text \<open>
  C1, as amended. During the name-similarity merge pass, when a candidate is folded into
  the current (absorber) record, a non-N/A name field on the candidate replaces the
  corresponding field of the absorber whatever that field held, and an N/A name field on
  the candidate leaves the absorber's field as it was (last writer per field wins). So
  for every input list each name slot of an output record holds the last non-N/A value
  among the candidates its group absorbed, in the order of absorption, and the absorber's
  own value when there is none.
\<close>

theorem fold_last_writer_wins:
  assumes "k < length (mergeGroups xs)"
  shows "mergeSimilarContactsFocused xs ! k = foldGroup xs (mergeGroups xs ! k)
    \<and> linkedin_name (mergeSimilarContactsFocused xs ! k)
        = lastWriter (linkedin_name (xs ! fst (mergeGroups xs ! k)))
            (map (\<lambda>j. linkedin_name (xs ! j)) (snd (mergeGroups xs ! k)))
    \<and> phonebook_name (mergeSimilarContactsFocused xs ! k)
        = lastWriter (phonebook_name (xs ! fst (mergeGroups xs ! k)))
            (map (\<lambda>j. phonebook_name (xs ! j)) (snd (mergeGroups xs ! k)))
    \<and> email_name (mergeSimilarContactsFocused xs ! k)
        = lastWriter (email_name (xs ! fst (mergeGroups xs ! k)))
            (map (\<lambda>j. email_name (xs ! j)) (snd (mergeGroups xs ! k)))"
  using assms
  by (simp add: run_output foldGroup_def foldl_mergeInto_names comp_def)

text \<open>C1 on the two records: the output record carries the name of the absorbed one.\<close>

theorem fold_last_writer_wins_witness:
  "0 < length (mergeGroups [johnSmith, johnSmyth])
   \<and> linkedin_name (mergeSimilarContactsFocused [johnSmith, johnSmyth] ! 0) = str ''John Smyth''"
proof -
  have k: "0 < length (mergeGroups [johnSmith, johnSmyth])"
    by (simp add: groups_johns)
  have w: "lastWriter (linkedin_name johnSmith) [linkedin_name johnSmyth] = str ''John Smyth''"
    by (simp add: lastWriter_def johnSmyth_def NA_def str_eq_iff)
  have "linkedin_name (mergeSimilarContactsFocused [johnSmith, johnSmyth] ! 0)
      = lastWriter
          (linkedin_name ([johnSmith, johnSmyth] ! fst (mergeGroups [johnSmith, johnSmyth] ! 0)))
          (map (\<lambda>j. linkedin_name ([johnSmith, johnSmyth] ! j))
             (snd (mergeGroups [johnSmith, johnSmyth] ! 0)))"
    using fold_last_writer_wins [OF k] by blast
  also have "\<dots> = lastWriter (linkedin_name johnSmith) [linkedin_name johnSmyth]"
    by (simp add: groups_johns)
  finally show ?thesis
    using k w by simp
qed

text \<open>
  C1 as stated fails: the absorber John Smith has a name in the professional-network
  slot, the absorbed candidate has a different one there, and the output record holds
  the candidate's.
\<close>

theorem first_writer_counterexample:
  "linkedin_name johnSmith \<noteq> NA \<and> linkedin_name johnSmyth \<noteq> linkedin_name johnSmith
   \<and> mergeSimilarContactsFocused [johnSmith, johnSmyth]
       = [johnSmith\<lparr>linkedin_name := linkedin_name johnSmyth, phone := phone johnSmyth\<rparr>]"
proof -
  have "mergeSimilarContactsFocused [johnSmith, johnSmyth] = [mergeInto johnSmith johnSmyth]"
    by (simp add: run_output groups_johns foldGroup_def)
  moreover have "linkedin_name johnSmith \<noteq> NA \<and> linkedin_name johnSmyth \<noteq> linkedin_name johnSmith"
    by (simp add: johnSmith_def johnSmyth_def NA_def str_eq_iff)
  ultimately show ?thesis
    by (simp add: fold_johns) (simp add: johnSmyth_def)
qed

section \<open>Two candidates\<close>













section \<open>Folding changes the tests\<close>





section \<open>The loop over j of the exhaustive pass\<close>






section \<open>The candidate loop of the focused pass under the same tests\<close>






section \<open>The two main loops side by side\<close>










section \<open>What the index brings together\<close>



section \<open>Evaluation on further records\<close>




























































section \<open>Claim about the two passes\<close>




section \<open>The sort\<close>

lemma mset_insertSorted: "mset (insertSorted f x ys) = add_mset x (mset ys)"
  by (induction ys) auto

lemma mset_sortArray: "mset (sortArray f xs) = mset xs"
  by (induction xs) (auto simp: mset_insertSorted)

lemma set_insertSorted: "set (insertSorted f x ys) = insert x (set ys)"
  by (induction ys) auto

lemma sorted_insertSorted:
  assumes total: "\<And>a b. f a b \<le> 0 \<or> f b a \<le> 0"
    and trans: "\<And>a b c. f a b \<le> 0 \<Longrightarrow> f b c \<le> 0 \<Longrightarrow> f a c \<le> 0"
  shows "sorted_wrt (\<lambda>a b. f a b \<le> 0) ys \<Longrightarrow> sorted_wrt (\<lambda>a b. f a b \<le> 0) (insertSorted f x ys)"
proof (induction ys)
  case Nil
  show ?case by simp
next
  case (Cons y ys)
  show ?case
  proof (cases "f x y \<le> 0")
    case True
    have "\<forall>z\<in>set ys. f x z \<le> 0" using Cons.prems True trans by auto
    then show ?thesis using True Cons.prems by simp
  next
    case False
    then have yx: "f y x \<le> 0" using total [of x y] by simp
    have "sorted_wrt (\<lambda>a b. f a b \<le> 0) (insertSorted f x ys)" using Cons by simp
    then show ?thesis using False yx Cons.prems by (simp add: set_insertSorted)
  qed
qed

lemma sorted_sortArray:
  assumes total: "\<And>a b. f a b \<le> 0 \<or> f b a \<le> 0"
    and trans: "\<And>a b c. f a b \<le> 0 \<Longrightarrow> f b c \<le> 0 \<Longrightarrow> f a c \<le> 0"
  shows "sorted_wrt (\<lambda>a b. f a b \<le> 0) (sortArray f xs)"
proof (induction xs)
  case Nil
  show ?case by simp
next
  case (Cons x xs)
  show ?case using sorted_insertSorted [OF total trans Cons.IH] by simp
qed

lemma score_range: "score a = 1 \<or> score a = 2 \<or> score a = 3"
  by (simp add: score_def)

lemma compareContacts_le:
  "compareContacts lc a b \<le> 0 \<longleftrightarrow>
     score a < score b \<or> (score a = score b \<and> lc (sortName a) (sortName b) \<le> 0)"
  by (auto simp: compareContacts_def)

lemma compareContacts_total:
  assumes "\<And>s t. lc s t \<le> 0 \<or> lc t s \<le> 0"
  shows "compareContacts lc a b \<le> 0 \<or> compareContacts lc b a \<le> 0"
  using assms [of "sortName a" "sortName b"] unfolding compareContacts_le by linarith

lemma compareContacts_trans:
  assumes "\<And>s t u. lc s t \<le> 0 \<Longrightarrow> lc t u \<le> 0 \<Longrightarrow> lc s u \<le> 0"
    and "compareContacts lc a b \<le> 0" "compareContacts lc b c \<le> 0"
  shows "compareContacts lc a c \<le> 0"
  using assms(2,3) assms(1) [of "sortName a" "sortName b" "sortName c"]
  unfolding compareContacts_le by auto

lemma compareCodeUnits_total: "compareCodeUnits s t \<le> 0 \<or> compareCodeUnits t s \<le> 0"
  by (induction s t rule: compareCodeUnits.induct) auto

lemma compareCodeUnits_trans:
  "compareCodeUnits s t \<le> 0 \<Longrightarrow> compareCodeUnits t u \<le> 0 \<Longrightarrow> compareCodeUnits s u \<le> 0"
proof (induction s t arbitrary: u rule: compareCodeUnits.induct)
  case 1
  then show ?case by simp
next
  case (2 y ys)
  then show ?case by (cases u) auto
next
  case (3 x xs)
  then show ?case by simp
next
  case (4 x xs y ys)
  show ?case
  proof (cases u)
    case Nil
    then show ?thesis using "4.prems" by simp
  next
    case (Cons z zs)
    show ?thesis
    proof (cases "x < y")
      case True
      then show ?thesis using "4.prems" Cons by (auto split: if_splits)
    next
      case False
      then have xy: "x = y" and r1: "compareCodeUnits xs ys \<le> 0"
        using "4.prems"(1) by (auto split: if_splits)
      show ?thesis
      proof (cases "y < z")
        case True
        then show ?thesis using xy Cons by simp
      next
        case nlt: False
        then have yz: "y = z" and r2: "compareCodeUnits ys zs \<le> 0"
          using "4.prems"(2) Cons by (auto split: if_splits)
        have "compareCodeUnits xs zs \<le> 0" using "4.IH" [OF _ _ r1 r2] False xy by simp
        then show ?thesis using xy yz Cons by simp
      qed
    qed
  qed
qed

lemma sortResults_sorted:
  assumes total: "\<And>s t. localeCompare s t \<le> 0 \<or> localeCompare t s \<le> 0"
    and trans: "\<And>s t u. localeCompare s t \<le> 0 \<Longrightarrow> localeCompare t u \<le> 0 \<Longrightarrow> localeCompare s u \<le> 0"
  shows "sorted_wrt (\<lambda>a b. score a < score b
          \<or> (score a = score b \<and> localeCompare (sortName a) (sortName b) \<le> 0))
        (sortResults localeCompare rs)"
proof -
  have t1: "\<And>a b. compareContacts localeCompare a b \<le> 0 \<or> compareContacts localeCompare b a \<le> 0"
    by (rule compareContacts_total) (rule total)
  have t2: "\<And>a b c. compareContacts localeCompare a b \<le> 0 \<Longrightarrow>
      compareContacts localeCompare b c \<le> 0 \<Longrightarrow> compareContacts localeCompare a c \<le> 0"
    by (rule compareContacts_trans [of localeCompare]) (rule trans)
  have "sorted_wrt (\<lambda>a b. compareContacts localeCompare a b \<le> 0) (sortResults localeCompare rs)"
    unfolding sortResults_def by (rule sorted_sortArray [OF t1 t2])
  then show ?thesis by (simp add: compareContacts_le)
qed

lemma score_slots:
  "score a = 1 \<longleftrightarrow> linkedin_name a \<noteq> NA"
  "score a = 2 \<longleftrightarrow> linkedin_name a = NA \<and> phonebook_name a \<noteq> NA"
  "score a = 3 \<longleftrightarrow> linkedin_name a = NA \<and> phonebook_name a = NA"
  by (simp_all add: score_def)

lemma sortName_slots:
  "linkedin_name a \<noteq> NA \<Longrightarrow> sortName a = linkedin_name a"
  "linkedin_name a = NA \<Longrightarrow> phonebook_name a \<noteq> NA \<Longrightarrow> sortName a = phonebook_name a"
  "linkedin_name a = NA \<Longrightarrow> phonebook_name a = NA \<Longrightarrow> sortName a = email_name a"
  by (simp_all add: sortName_def)

section \<open>Claim about the ranking\<close>

text \<open>
  C8. The final sort orders every record with a non-N/A professional-network (LinkedIn)
  name before every record with only a phone-book name, every record with only a
  phone-book name before every record with only an email-derived name (neither a
  LinkedIn nor a phone-book name), and so every record with a LinkedIn name before every
  record with only an email-derived name. Within equal priority the records are ordered
  ascending by the name used for scoring: the LinkedIn names among the first, the
  phone-book names among the second, the email-derived names among the third, in the
  order of \<open>localeCompare\<close>, for every comparison of the runtime that is total and
  transitive. The output holds the records of the input, each as many times.
\<close>

theorem sortResults_orders_name_slots:
  assumes total: "\<And>s t. localeCompare s t \<le> 0 \<or> localeCompare t s \<le> 0"
    and trans: "\<And>s t u. localeCompare s t \<le> 0 \<Longrightarrow> localeCompare t u \<le> 0 \<Longrightarrow> localeCompare s u \<le> 0"
    and out: "out = sortResults localeCompare rs"
  shows "mset out = mset rs
    \<and> (\<forall>i j. i < length out \<and> j < length out
          \<and> linkedin_name (out ! i) \<noteq> NA
          \<and> linkedin_name (out ! j) = NA \<and> phonebook_name (out ! j) \<noteq> NA
          \<longrightarrow> i < j)
    \<and> (\<forall>i j. i < length out \<and> j < length out
          \<and> linkedin_name (out ! i) = NA \<and> phonebook_name (out ! i) \<noteq> NA
          \<and> linkedin_name (out ! j) = NA \<and> phonebook_name (out ! j) = NA
          \<longrightarrow> i < j)
    \<and> (\<forall>i j. i < length out \<and> j < length out
          \<and> linkedin_name (out ! i) \<noteq> NA
          \<and> linkedin_name (out ! j) = NA \<and> phonebook_name (out ! j) = NA
          \<longrightarrow> i < j)
    \<and> (\<forall>i j. i < j \<and> j < length out
          \<and> linkedin_name (out ! i) \<noteq> NA \<and> linkedin_name (out ! j) \<noteq> NA
          \<longrightarrow> localeCompare (linkedin_name (out ! i)) (linkedin_name (out ! j)) \<le> 0)
    \<and> (\<forall>i j. i < j \<and> j < length out
          \<and> linkedin_name (out ! i) = NA \<and> phonebook_name (out ! i) \<noteq> NA
          \<and> linkedin_name (out ! j) = NA \<and> phonebook_name (out ! j) \<noteq> NA
          \<longrightarrow> localeCompare (phonebook_name (out ! i)) (phonebook_name (out ! j)) \<le> 0)
    \<and> (\<forall>i j. i < j \<and> j < length out
          \<and> linkedin_name (out ! i) = NA \<and> phonebook_name (out ! i) = NA
          \<and> linkedin_name (out ! j) = NA \<and> phonebook_name (out ! j) = NA
          \<longrightarrow> localeCompare (email_name (out ! i)) (email_name (out ! j)) \<le> 0)"
proof -
  have m: "mset out = mset rs" by (simp add: out sortResults_def mset_sortArray)
  have s: "sorted_wrt (\<lambda>a b. score a < score b
          \<or> (score a = score b \<and> localeCompare (sortName a) (sortName b) \<le> 0)) out"
    unfolding out by (rule sortResults_sorted [OF total trans])
  have ord: "\<And>i j. i < j \<Longrightarrow> j < length out \<Longrightarrow>
      score (out ! i) < score (out ! j)
      \<or> (score (out ! i) = score (out ! j)
          \<and> localeCompare (sortName (out ! i)) (sortName (out ! j)) \<le> 0)"
    using sorted_wrt_nth_less [OF s] by blast
  have before: "\<And>i j. i < length out \<Longrightarrow> j < length out \<Longrightarrow>
      score (out ! i) < score (out ! j) \<Longrightarrow> i < j"
  proof (rule ccontr)
    fix i j assume a: "i < length out" "j < length out" "score (out ! i) < score (out ! j)"
      and n: "\<not> i < j"
    show False
    proof (cases "j = i")
      case True
      then show ?thesis using a by simp
    next
      case False
      then have "j < i" using n by simp
      then show ?thesis using ord [of j i] a by auto
    qed
  qed
  have c1: "\<forall>i j. i < length out \<and> j < length out
          \<and> linkedin_name (out ! i) \<noteq> NA
          \<and> linkedin_name (out ! j) = NA \<and> phonebook_name (out ! j) \<noteq> NA
          \<longrightarrow> i < j"
  proof (intro allI impI)
    fix i j assume a: "i < length out \<and> j < length out
          \<and> linkedin_name (out ! i) \<noteq> NA
          \<and> linkedin_name (out ! j) = NA \<and> phonebook_name (out ! j) \<noteq> NA"
    then have "score (out ! i) = 1" "score (out ! j) = 2" by (simp_all add: score_slots)
    then show "i < j" using before [of i j] a by simp
  qed
  have c2: "\<forall>i j. i < length out \<and> j < length out
          \<and> linkedin_name (out ! i) = NA \<and> phonebook_name (out ! i) \<noteq> NA
          \<and> linkedin_name (out ! j) = NA \<and> phonebook_name (out ! j) = NA
          \<longrightarrow> i < j"
  proof (intro allI impI)
    fix i j assume a: "i < length out \<and> j < length out
          \<and> linkedin_name (out ! i) = NA \<and> phonebook_name (out ! i) \<noteq> NA
          \<and> linkedin_name (out ! j) = NA \<and> phonebook_name (out ! j) = NA"
    then have "score (out ! i) = 2" "score (out ! j) = 3" by (simp_all add: score_slots)
    then show "i < j" using before [of i j] a by simp
  qed
  have c3: "\<forall>i j. i < length out \<and> j < length out
          \<and> linkedin_name (out ! i) \<noteq> NA
          \<and> linkedin_name (out ! j) = NA \<and> phonebook_name (out ! j) = NA
          \<longrightarrow> i < j"
  proof (intro allI impI)
    fix i j assume a: "i < length out \<and> j < length out
          \<and> linkedin_name (out ! i) \<noteq> NA
          \<and> linkedin_name (out ! j) = NA \<and> phonebook_name (out ! j) = NA"
    then have "score (out ! i) = 1" "score (out ! j) = 3" by (simp_all add: score_slots)
    then show "i < j" using before [of i j] a by simp
  qed
  have c4: "\<forall>i j. i < j \<and> j < length out
          \<and> linkedin_name (out ! i) \<noteq> NA \<and> linkedin_name (out ! j) \<noteq> NA
          \<longrightarrow> localeCompare (linkedin_name (out ! i)) (linkedin_name (out ! j)) \<le> 0"
  proof (intro allI impI)
    fix i j assume a: "i < j \<and> j < length out
          \<and> linkedin_name (out ! i) \<noteq> NA \<and> linkedin_name (out ! j) \<noteq> NA"
    then have "score (out ! i) = 1" "score (out ! j) = 1" by (simp_all add: score_slots)
    then have "localeCompare (sortName (out ! i)) (sortName (out ! j)) \<le> 0"
      using ord [of i j] a by simp
    then show "localeCompare (linkedin_name (out ! i)) (linkedin_name (out ! j)) \<le> 0"
      using a by (simp add: sortName_slots)
  qed
  have c5: "\<forall>i j. i < j \<and> j < length out
          \<and> linkedin_name (out ! i) = NA \<and> phonebook_name (out ! i) \<noteq> NA
          \<and> linkedin_name (out ! j) = NA \<and> phonebook_name (out ! j) \<noteq> NA
          \<longrightarrow> localeCompare (phonebook_name (out ! i)) (phonebook_name (out ! j)) \<le> 0"
  proof (intro allI impI)
    fix i j assume a: "i < j \<and> j < length out
          \<and> linkedin_name (out ! i) = NA \<and> phonebook_name (out ! i) \<noteq> NA
          \<and> linkedin_name (out ! j) = NA \<and> phonebook_name (out ! j) \<noteq> NA"
    then have "score (out ! i) = 2" "score (out ! j) = 2" by (simp_all add: score_slots)
    then have "localeCompare (sortName (out ! i)) (sortName (out ! j)) \<le> 0"
      using ord [of i j] a by simp
    then show "localeCompare (phonebook_name (out ! i)) (phonebook_name (out ! j)) \<le> 0"
      using a by (simp add: sortName_slots)
  qed
  have c6: "\<forall>i j. i < j \<and> j < length out
          \<and> linkedin_name (out ! i) = NA \<and> phonebook_name (out ! i) = NA
          \<and> linkedin_name (out ! j) = NA \<and> phonebook_name (out ! j) = NA
          \<longrightarrow> localeCompare (email_name (out ! i)) (email_name (out ! j)) \<le> 0"
  proof (intro allI impI)
    fix i j assume a: "i < j \<and> j < length out
          \<and> linkedin_name (out ! i) = NA \<and> phonebook_name (out ! i) = NA
          \<and> linkedin_name (out ! j) = NA \<and> phonebook_name (out ! j) = NA"
    then have "score (out ! i) = 3" "score (out ! j) = 3" by (simp_all add: score_slots)
    then have "localeCompare (sortName (out ! i)) (sortName (out ! j)) \<le> 0"
      using ord [of i j] a by simp
    then show "localeCompare (email_name (out ! i)) (email_name (out ! j)) \<le> 0"
      using a by (simp add: sortName_slots)
  qed
  show ?thesis using m c1 c2 c3 c4 c5 c6 by (intro conjI)
qed

lemma slots_examples:
  "linkedin_name johnSmith = str ''John Smith''" "linkedin_name smith = str ''Smith''"
  "linkedin_name amyPhone = NA" "phonebook_name amyPhone = str ''Amy Roe''"
  "linkedin_name janePhone = NA" "phonebook_name janePhone = str ''Jane Doe''"
  "linkedin_name bobMail = NA" "phonebook_name bobMail = NA" "email_name bobMail = str ''Bob Ray''"
  "linkedin_name janeMail = NA" "phonebook_name janeMail = NA" "email_name janeMail = str ''Jane Doe''"
  by (simp_all add: johnSmith_def smith_def amyPhone_def janePhone_def bobMail_def janeMail_def)

lemma names_not_NA:
  "str ''John Smith'' \<noteq> NA" "str ''Smith'' \<noteq> NA" "str ''Amy Roe'' \<noteq> NA"
  "str ''Jane Doe'' \<noteq> NA" "str ''Bob Ray'' \<noteq> NA"
  by (simp_all add: NA_def str_eq_iff)

lemma scores_examples:
  "score johnSmith = 1" "score smith = 1" "score amyPhone = 2" "score janePhone = 2"
  "score bobMail = 3" "score janeMail = 3"
  by (simp_all add: score_def slots_examples names_not_NA)

lemma sortNames_examples:
  "sortName johnSmith = str ''John Smith''" "sortName smith = str ''Smith''"
  "sortName amyPhone = str ''Amy Roe''" "sortName janePhone = str ''Jane Doe''"
  "sortName bobMail = str ''Bob Ray''" "sortName janeMail = str ''Jane Doe''"
  by (simp_all add: sortName_def slots_examples names_not_NA)

lemma compare_examples:
  "compareCodeUnits (str ''Smith'') (str ''John Smith'') = 1"
  "compareCodeUnits (str ''John Smith'') (str ''Smith'') = - 1"
  "compareCodeUnits (str ''Amy Roe'') (str ''Jane Doe'') = - 1"
  "compareCodeUnits (str ''Jane Doe'') (str ''Amy Roe'') = 1"
  "compareCodeUnits (str ''Bob Ray'') (str ''Jane Doe'') = - 1"
  "compareCodeUnits (str ''Jane Doe'') (str ''Bob Ray'') = 1"
  by (simp_all add: str_def)

lemma sorted_examples:
  "sortResults compareCodeUnits [janeMail, smith, bobMail, janePhone, johnSmith, amyPhone]
     = [johnSmith, smith, amyPhone, janePhone, bobMail, janeMail]"
  by (simp add: sortResults_def compareContacts_def scores_examples sortNames_examples
        compare_examples)

text \<open>C8 with the comparison by code units, on six records, two of each priority: a
  record with only a phone-book name and no phone number, a record with only an
  email-derived name and a phone number among them.\<close>

theorem sortResults_orders_name_slots_witness:
  "sortResults compareCodeUnits [janeMail, smith, bobMail, janePhone, johnSmith, amyPhone]
     = [johnSmith, smith, amyPhone, janePhone, bobMail, janeMail]
   \<and> mset [johnSmith, smith, amyPhone, janePhone, bobMail, janeMail]
       = mset [janeMail, smith, bobMail, janePhone, johnSmith, amyPhone]
   \<and> linkedin_name johnSmith \<noteq> NA \<and> linkedin_name smith \<noteq> NA
   \<and> compareCodeUnits (linkedin_name johnSmith) (linkedin_name smith) \<le> 0
   \<and> linkedin_name amyPhone = NA \<and> phonebook_name amyPhone \<noteq> NA
   \<and> linkedin_name janePhone = NA \<and> phonebook_name janePhone \<noteq> NA
   \<and> compareCodeUnits (phonebook_name amyPhone) (phonebook_name janePhone) \<le> 0
   \<and> linkedin_name bobMail = NA \<and> phonebook_name bobMail = NA
   \<and> linkedin_name janeMail = NA \<and> phonebook_name janeMail = NA
   \<and> compareCodeUnits (email_name bobMail) (email_name janeMail) \<le> 0"
proof -
  let ?out = "[johnSmith, smith, amyPhone, janePhone, bobMail, janeMail]"
  note ranked = sortResults_orders_name_slots [of compareCodeUnits ?out
      "[janeMail, smith, bobMail, janePhone, johnSmith, amyPhone]",
      OF compareCodeUnits_total _ sorted_examples [symmetric]]
  have m: "mset ?out = mset [janeMail, smith, bobMail, janePhone, johnSmith, amyPhone]"
    by (rule ranked [THEN conjunct1]) (rule compareCodeUnits_trans)
  have l: "\<forall>i j. i < j \<and> j < length ?out
          \<and> linkedin_name (?out ! i) \<noteq> NA \<and> linkedin_name (?out ! j) \<noteq> NA
          \<longrightarrow> compareCodeUnits (linkedin_name (?out ! i)) (linkedin_name (?out ! j)) \<le> 0"
    by (rule ranked [THEN conjunct2, THEN conjunct2, THEN conjunct2, THEN conjunct2,
          THEN conjunct1])
      (rule compareCodeUnits_trans)
  have p: "\<forall>i j. i < j \<and> j < length ?out
          \<and> linkedin_name (?out ! i) = NA \<and> phonebook_name (?out ! i) \<noteq> NA
          \<and> linkedin_name (?out ! j) = NA \<and> phonebook_name (?out ! j) \<noteq> NA
          \<longrightarrow> compareCodeUnits (phonebook_name (?out ! i)) (phonebook_name (?out ! j)) \<le> 0"
    by (rule ranked [THEN conjunct2, THEN conjunct2, THEN conjunct2, THEN conjunct2,
          THEN conjunct2, THEN conjunct1])
      (rule compareCodeUnits_trans)
  have e: "\<forall>i j. i < j \<and> j < length ?out
          \<and> linkedin_name (?out ! i) = NA \<and> phonebook_name (?out ! i) = NA
          \<and> linkedin_name (?out ! j) = NA \<and> phonebook_name (?out ! j) = NA
          \<longrightarrow> compareCodeUnits (email_name (?out ! i)) (email_name (?out ! j)) \<le> 0"
    by (rule ranked [THEN conjunct2, THEN conjunct2, THEN conjunct2, THEN conjunct2,
          THEN conjunct2, THEN conjunct2])
      (rule compareCodeUnits_trans)
  have s: "linkedin_name johnSmith \<noteq> NA" "linkedin_name smith \<noteq> NA"
    "linkedin_name amyPhone = NA" "phonebook_name amyPhone \<noteq> NA"
    "linkedin_name janePhone = NA" "phonebook_name janePhone \<noteq> NA"
    "linkedin_name bobMail = NA" "phonebook_name bobMail = NA"
    "linkedin_name janeMail = NA" "phonebook_name janeMail = NA"
    by (simp_all add: slots_examples names_not_NA)
  have c1: "compareCodeUnits (linkedin_name johnSmith) (linkedin_name smith) \<le> 0"
    using l [rule_format, of 0 "Suc 0"] s by simp
  have c2: "compareCodeUnits (phonebook_name amyPhone) (phonebook_name janePhone) \<le> 0"
    using p [rule_format, of "Suc (Suc 0)" "Suc (Suc (Suc 0))"] s by simp
  have c3: "compareCodeUnits (email_name bobMail) (email_name janeMail) \<le> 0"
    using e [rule_format, of "Suc (Suc (Suc (Suc 0)))" "Suc (Suc (Suc (Suc (Suc 0))))"] s
    by simp
  show ?thesis using sorted_examples m s c1 c2 c3 by (intro conjI)
qed

end
